theory Spec2Isabelle
  imports Main "HOL-Library.Word"
begin

unbundle bit_operations_syntax

section \<open>Slot storage and device views\<close>

text \<open>
  A slot is a pair of atomic cells, \<open>first\<close> for the key and \<open>second\<close> for the value.
  Keys and values are modelled by their object representation, so HOL equality on them
  is the bitwise comparison of \<open>detail::bitwise_compare\<close> and of the hardware
  compare-and-swap.  Iterators into the slot array are indices; \<open>end()\<close> is the index
  one past the last slot.

  A device view is the non-owning handle that kernels receive: the slot array, its
  capacity and the two sentinels.  The host container \<open>static_map\<close> extends it with
  the host-side field \<open>size_\<close> (\<open>std::size_t\<close>; every success occupies one more slot, so
  under the caller contract that the sentinel key is never inserted it is bounded by the
  capacity and never wraps) and with the device-resident success counter.  The multimap
  extends the view with its device-resident match counter.  The constructors allocate the
  counters without writing them; every operation that reads a counter zeroes it first, and
  the model starts them at zero.
\<close>

type_synonym ('k, 'v) slot = "'k \<times> 'v"

record ('k, 'v) device_view =
  slots :: "('k, 'v) slot list"
  capacity :: nat
  empty_key_sentinel :: 'k
  empty_value_sentinel :: 'v

record ('k, 'v) static_map = "('k, 'v) device_view" +
  map_size :: nat
  num_successes :: nat

record ('k, 'v) static_multimap = "('k, 'v) device_view" +
  d_counter :: nat

datatype insert_result = CONTINUE | SUCCESS | DUPLICATE

definition bitwise_compare :: "'a \<Rightarrow> 'a \<Rightarrow> bool" where
  "bitwise_compare lhs rhs = (lhs = rhs)"

text \<open>
  \<open>compare_exchange_strong cell expected desired\<close> returns the success flag, the updated
  \<open>expected\<close> (the observed content on failure) and the new content of the cell.
\<close>

definition compare_exchange_strong :: "'a \<Rightarrow> 'a \<Rightarrow> 'a \<Rightarrow> bool \<times> 'a \<times> 'a" where
  "compare_exchange_strong cell expected desired =
     (if cell = expected then (True, expected, desired) else (False, cell, cell))"

text \<open>
  Modelled from the spec: the \<open>initialize\<close> kernel (launched by both constructors, its
  body is not part of the two implementation files) writes the empty pair into every
  slot.
\<close>

definition initialize :: "nat \<Rightarrow> 'k \<Rightarrow> 'v \<Rightarrow> ('k, 'v) slot list" where
  "initialize cap empty_key empty_value = replicate cap (empty_key, empty_value)"

definition static_map_construct :: "nat \<Rightarrow> 'k \<Rightarrow> 'v \<Rightarrow> ('k, 'v) static_map" where
  "static_map_construct cap empty_key empty_value =
     \<lparr>slots = initialize (max cap 1) empty_key empty_value,
      capacity = max cap 1,
      empty_key_sentinel = empty_key,
      empty_value_sentinel = empty_value,
      map_size = 0,
      num_successes = 0\<rparr>"

definition get_device_view :: "('k, 'v, 'z) device_view_scheme \<Rightarrow> ('k, 'v) device_view" where
  "get_device_view m =
     \<lparr>slots = slots m, capacity = capacity m,
      empty_key_sentinel = empty_key_sentinel m,
      empty_value_sentinel = empty_value_sentinel m\<rparr>"

definition get_device_mutable_view :: "('k, 'v, 'z) device_view_scheme \<Rightarrow> ('k, 'v) device_view" where
  "get_device_mutable_view m = get_device_view m"

section \<open>Probe sequence of the map\<close>



definition initial_slot_cg :: "('k, 'v) device_view \<Rightarrow> nat \<Rightarrow> 'k \<Rightarrow> ('k \<Rightarrow> nat) \<Rightarrow> nat" where
  "initial_slot_cg v thread_rank k hash = (hash k + thread_rank) mod capacity v"

definition next_slot_cg :: "('k, 'v) device_view \<Rightarrow> nat \<Rightarrow> nat \<Rightarrow> nat" where
  "next_slot_cg v g_size s = (s + g_size) mod capacity v"

definition view_end :: "('k, 'v) device_view \<Rightarrow> nat" where
  "view_end v = capacity v"

section \<open>Single-worker slot protocols\<close>

text \<open>
  Each protocol takes the content of the slot that \<open>current_slot\<close> points to and returns
  the status together with the new content of that slot.
\<close>

definition packed_cas ::
  "('k, 'v) device_view \<Rightarrow> ('k, 'v) slot \<Rightarrow> 'k \<times> 'v \<Rightarrow> ('k \<Rightarrow> 'k \<Rightarrow> bool)
     \<Rightarrow> insert_result \<times> ('k, 'v) slot" where
  "packed_cas v current_slot insert_pair key_equal =
     (let expected_key = empty_key_sentinel v;
          expected_value = empty_value_sentinel v;
          (success, expected_pair, cell) =
             compare_exchange_strong current_slot (expected_key, expected_value) insert_pair
      in if success then (SUCCESS, cell)
         else if key_equal (fst insert_pair) (fst expected_pair) then (DUPLICATE, cell)
         else (CONTINUE, cell))"

text \<open>
  The back-to-back protocol is not atomic as a whole: other workers may write the slot
  between two of its atomic operations.  \<open>others\<close> lists what the other workers do to the
  slot before the second, third, ... atomic operation of this worker (nothing once the
  list is exhausted); the slot passed in is the one its first operation meets.  The retry
  loop on the value cell has no bound in the source, so it is a partial function: \<open>None\<close>
  is a worker that spins forever.
\<close>

definition after_others :: "('s \<Rightarrow> 's) list \<Rightarrow> 's \<Rightarrow> 's" where
  "after_others others s = (case others of [] \<Rightarrow> s | f # _ \<Rightarrow> f s)"

partial_function (option) value_cas_loop ::
  "'v \<Rightarrow> 'v \<Rightarrow> (('k, 'v) slot \<Rightarrow> ('k, 'v) slot) list \<Rightarrow> ('k, 'v) slot
     \<Rightarrow> ('k, 'v) slot option" where
  "value_cas_loop empty_value desired others s =
     (let s' = after_others others s;
          (value_success, expected_value, slot_value) =
             compare_exchange_strong (snd s') empty_value desired
      in if value_success then Some (fst s', slot_value)
         else value_cas_loop empty_value desired (tl others) (fst s', slot_value))"

declare value_cas_loop.simps [code]

definition back_to_back_cas ::
  "('k, 'v) device_view \<Rightarrow> (('k, 'v) slot \<Rightarrow> ('k, 'v) slot) list \<Rightarrow> ('k, 'v) slot
     \<Rightarrow> 'k \<times> 'v \<Rightarrow> ('k \<Rightarrow> 'k \<Rightarrow> bool) \<Rightarrow> (insert_result \<times> ('k, 'v) slot) option" where
  "back_to_back_cas v others current_slot insert_pair key_equal =
     (let (key_success, expected_key, slot_key) =
             compare_exchange_strong (fst current_slot) (empty_key_sentinel v) (fst insert_pair);
          s1 = after_others others (slot_key, snd current_slot);
          (value_success, expected_value, slot_value) =
             compare_exchange_strong (snd s1) (empty_value_sentinel v) (snd insert_pair);
          s2 = (fst s1, slot_value)
      in if key_success then
           (if value_success then Some (SUCCESS, s2)
            else map_option (Pair SUCCESS)
                   (value_cas_loop (empty_value_sentinel v) (snd insert_pair) (tl others) s2))
         else
           (let s3 = (if value_success
                      then (fst (after_others (tl others) s2), empty_value_sentinel v)
                      else s2)
            in if key_equal (fst insert_pair) expected_key then Some (DUPLICATE, s3)
               else Some (CONTINUE, s3)))"

definition cas_dependent_write ::
  "('k, 'v) device_view \<Rightarrow> ('k, 'v) slot \<Rightarrow> 'k \<times> 'v \<Rightarrow> ('k \<Rightarrow> 'k \<Rightarrow> bool)
     \<Rightarrow> insert_result \<times> ('k, 'v) slot" where
  "cas_dependent_write v current_slot insert_pair key_equal =
     (let (key_success, expected_key, slot_key) =
             compare_exchange_strong (fst current_slot) (empty_key_sentinel v) (fst insert_pair)
      in if key_success then (SUCCESS, (slot_key, snd insert_pair))
         else if key_equal (fst insert_pair) expected_key
              then (DUPLICATE, (slot_key, snd current_slot))
         else (CONTINUE, (slot_key, snd current_slot)))"

text \<open>
  The compile-time selection inside \<open>insert\<close>: one packed CAS when the pair is packable,
  otherwise CAS-then-store below compute capability 7.0 and back-to-back CAS from 7.0
  on.  The map's operations are modelled one at a time, so no other worker interferes
  here.
\<close>

definition slot_protocol ::
  "bool \<Rightarrow> nat \<Rightarrow> ('k, 'v) device_view \<Rightarrow> ('k, 'v) slot \<Rightarrow> 'k \<times> 'v \<Rightarrow> ('k \<Rightarrow> 'k \<Rightarrow> bool)
     \<Rightarrow> (insert_result \<times> ('k, 'v) slot) option" where
  "slot_protocol is_packable cuda_arch v current_slot insert_pair key_equal =
     (if is_packable then Some (packed_cas v current_slot insert_pair key_equal)
      else if cuda_arch < 700
           then Some (cas_dependent_write v current_slot insert_pair key_equal)
      else back_to_back_cas v [] current_slot insert_pair key_equal)"

section \<open>Device operations of the map, single-worker form\<close>










section \<open>Device operations of the map, cooperative-group form\<close>

text \<open>
  The lanes of a group run in lockstep, each with its own \<open>current_slot\<close>; the list
  \<open>current_slot\<close> holds them in lane order.  A ballot is the list of the lanes' votes,
  \<open>ffs\<close> the one-based position of its lowest set lane (zero when none is set).
\<close>

fun ffs :: "bool list \<Rightarrow> nat" where
  "ffs [] = 0"
| "ffs (b # bs) = (if b then 1 else if ffs bs = 0 then 0 else Suc (ffs bs))"

partial_function (option) insert_cg_probe ::
  "bool \<Rightarrow> nat \<Rightarrow> ('k \<Rightarrow> 'k \<Rightarrow> bool) \<Rightarrow> 'k \<times> 'v \<Rightarrow> ('k, 'v) device_view \<Rightarrow> nat list
     \<Rightarrow> (bool \<times> ('k, 'v) device_view) option" where
  "insert_cg_probe is_packable cuda_arch key_equal insert_pair v current_slot =
     (let existing_key = map (\<lambda>s. fst (slots v ! s)) current_slot;
          slot_is_empty = map (\<lambda>e. bitwise_compare e (empty_key_sentinel v)) existing_key
      in if list_ex (\<lambda>e. \<not> bitwise_compare e (empty_key_sentinel v)
                          \<and> key_equal e (fst insert_pair)) existing_key
         then Some (False, v)
         else
           (let window_contains_empty = slot_is_empty
            in if list_ex id window_contains_empty then
                 (let src_lane = ffs window_contains_empty - 1
                  in case slot_protocol is_packable cuda_arch v
                            (slots v ! (current_slot ! src_lane)) insert_pair key_equal of
                       None \<Rightarrow> None
                     | Some (status, cell) \<Rightarrow>
                         (let v' = v\<lparr>slots := (slots v)[current_slot ! src_lane := cell]\<rparr>
                          in if status = SUCCESS then Some (True, v')
                             else if status = DUPLICATE then Some (False, v')
                             else insert_cg_probe is_packable cuda_arch key_equal
                                    insert_pair v' current_slot))
               else insert_cg_probe is_packable cuda_arch key_equal insert_pair v
                      (map (next_slot_cg v (length current_slot)) current_slot)))"

declare insert_cg_probe.simps [code]

definition device_mutable_view_insert_cg ::
  "bool \<Rightarrow> nat \<Rightarrow> nat \<Rightarrow> ('k, 'v) device_view \<Rightarrow> 'k \<times> 'v \<Rightarrow> ('k \<Rightarrow> nat)
     \<Rightarrow> ('k \<Rightarrow> 'k \<Rightarrow> bool) \<Rightarrow> (bool \<times> ('k, 'v) device_view) option" where
  "device_mutable_view_insert_cg is_packable cuda_arch g_size v insert_pair hash key_equal =
     insert_cg_probe is_packable cuda_arch key_equal insert_pair v
       (map (\<lambda>thread_rank. initial_slot_cg v thread_rank (fst insert_pair) hash) [0..<g_size])"

partial_function (option) find_cg_probe ::
  "('k \<Rightarrow> 'k \<Rightarrow> bool) \<Rightarrow> 'k \<Rightarrow> ('k, 'v) device_view \<Rightarrow> nat list \<Rightarrow> nat option" where
  "find_cg_probe key_equal k v current_slot =
     (let existing_key = map (\<lambda>s. fst (slots v ! s)) current_slot;
          slot_is_empty = map (\<lambda>e. bitwise_compare e (empty_key_sentinel v)) existing_key;
          exists = map (\<lambda>e. \<not> bitwise_compare e (empty_key_sentinel v) \<and> key_equal e k)
                     existing_key
      in if list_ex id exists then Some (current_slot ! (ffs exists - 1))
         else if list_ex id slot_is_empty then Some (view_end v)
         else find_cg_probe key_equal k v
                (map (next_slot_cg v (length current_slot)) current_slot))"

declare find_cg_probe.simps [code]

definition device_view_find_cg ::
  "nat \<Rightarrow> ('k, 'v) device_view \<Rightarrow> 'k \<Rightarrow> ('k \<Rightarrow> nat) \<Rightarrow> ('k \<Rightarrow> 'k \<Rightarrow> bool) \<Rightarrow> nat option" where
  "device_view_find_cg g_size v k hash key_equal =
     find_cg_probe key_equal k v
       (map (\<lambda>thread_rank. initial_slot_cg v thread_rank k hash) [0..<g_size])"

partial_function (option) contains_cg_probe ::
  "('k \<Rightarrow> 'k \<Rightarrow> bool) \<Rightarrow> 'k \<Rightarrow> ('k, 'v) device_view \<Rightarrow> nat list \<Rightarrow> bool option" where
  "contains_cg_probe key_equal k v current_slot =
     (let existing_key = map (\<lambda>s. fst (slots v ! s)) current_slot;
          slot_is_empty = map (\<lambda>e. bitwise_compare e (empty_key_sentinel v)) existing_key
      in if list_ex (\<lambda>e. \<not> bitwise_compare e (empty_key_sentinel v) \<and> key_equal e k)
              existing_key
         then Some True
         else if list_ex id slot_is_empty then Some False
         else contains_cg_probe key_equal k v
                (map (next_slot_cg v (length current_slot)) current_slot))"

declare contains_cg_probe.simps [code]

definition device_view_contains_cg ::
  "nat \<Rightarrow> ('k, 'v) device_view \<Rightarrow> 'k \<Rightarrow> ('k \<Rightarrow> nat) \<Rightarrow> ('k \<Rightarrow> 'k \<Rightarrow> bool) \<Rightarrow> bool option" where
  "device_view_contains_cg g_size v k hash key_equal =
     contains_cg_probe key_equal k v
       (map (\<lambda>thread_rank. initial_slot_cg v thread_rank k hash) [0..<g_size])"

section \<open>Bulk operations of the map\<close>

text \<open>
  A bulk operation is described by the calls it issues on its stream, in order, and by
  the state once the stream has drained: the container and what the operation wrote or
  returned.  The outcome is \<open>None\<close> when a kernel it launched never terminates.  An input
  range \<open>[first, last)\<close> is the list of its elements, an output range the list of the
  values written from \<open>output_begin\<close> on, a stencil iterator the function from offsets
  to stencil values.
\<close>

datatype cuda_call = MemsetAsync | KernelLaunch nat nat | MemcpyAsync | StreamSynchronize

record ('c, 'o) host_result =
  calls :: "cuda_call list"
  outcome :: "('c \<times> 'o) option"

text \<open>
  Modelled from the spec: the kernels \<open>detail::insert\<close>, \<open>detail::insert_if_n\<close>,
  \<open>detail::find\<close> and \<open>detail::contains\<close> that the bulk operations launch are not among
  the implementation files.  One group of \<open>tile_size\<close> workers handles one work item
  with the group form of the device operation; a successful insert adds one to the
  device counter; \<open>insert_if_n\<close> inserts only the items whose stencil value satisfies
  the predicate; \<open>find\<close> writes the value of the slot found or \<open>empty_value\<close>, \<open>contains\<close>
  one bool, per probe.  The work items are taken one after the other, in input order.
\<close>

fun insert_kernel ::
  "bool \<Rightarrow> nat \<Rightarrow> nat \<Rightarrow> ('k \<times> 'v) list \<Rightarrow> nat \<Rightarrow> ('k, 'v) device_view \<Rightarrow> ('k \<Rightarrow> nat)
     \<Rightarrow> ('k \<Rightarrow> 'k \<Rightarrow> bool) \<Rightarrow> (nat \<times> ('k, 'v) device_view) option" where
  "insert_kernel is_packable cuda_arch tile_size [] counter view hash key_equal =
     Some (counter, view)"
| "insert_kernel is_packable cuda_arch tile_size (insert_pair # rest) counter view hash key_equal =
     (case device_mutable_view_insert_cg is_packable cuda_arch tile_size view insert_pair
             hash key_equal of
        None \<Rightarrow> None
      | Some (inserted, view') \<Rightarrow>
          insert_kernel is_packable cuda_arch tile_size rest
            (if inserted then counter + 1 else counter) view' hash key_equal)"

fun insert_if_n_kernel ::
  "bool \<Rightarrow> nat \<Rightarrow> nat \<Rightarrow> ('k \<times> 'v) list \<Rightarrow> nat \<Rightarrow> nat \<Rightarrow> ('k, 'v) device_view
     \<Rightarrow> (nat \<Rightarrow> 's) \<Rightarrow> ('s \<Rightarrow> bool) \<Rightarrow> ('k \<Rightarrow> nat) \<Rightarrow> ('k \<Rightarrow> 'k \<Rightarrow> bool)
     \<Rightarrow> (nat \<times> ('k, 'v) device_view) option" where
  "insert_if_n_kernel is_packable cuda_arch tile_size [] i counter view stencil pred
       hash key_equal =
     Some (counter, view)"
| "insert_if_n_kernel is_packable cuda_arch tile_size (insert_pair # rest) i counter view
       stencil pred hash key_equal =
     (if pred (stencil i) then
        (case device_mutable_view_insert_cg is_packable cuda_arch tile_size view insert_pair
                hash key_equal of
           None \<Rightarrow> None
         | Some (inserted, view') \<Rightarrow>
             insert_if_n_kernel is_packable cuda_arch tile_size rest (Suc i)
               (if inserted then counter + 1 else counter) view' stencil pred hash key_equal)
      else insert_if_n_kernel is_packable cuda_arch tile_size rest (Suc i) counter view
             stencil pred hash key_equal)"

fun find_kernel ::
  "nat \<Rightarrow> 'k list \<Rightarrow> ('k, 'v) device_view \<Rightarrow> ('k \<Rightarrow> nat) \<Rightarrow> ('k \<Rightarrow> 'k \<Rightarrow> bool)
     \<Rightarrow> 'v list option" where
  "find_kernel tile_size [] view hash key_equal = Some []"
| "find_kernel tile_size (key # rest) view hash key_equal =
     (case device_view_find_cg tile_size view key hash key_equal of
        None \<Rightarrow> None
      | Some found \<Rightarrow>
          map_option
            (Cons (if found = view_end view then empty_value_sentinel view
                   else snd (slots view ! found)))
            (find_kernel tile_size rest view hash key_equal))"

fun contains_kernel ::
  "nat \<Rightarrow> 'k list \<Rightarrow> ('k, 'v) device_view \<Rightarrow> ('k \<Rightarrow> nat) \<Rightarrow> ('k \<Rightarrow> 'k \<Rightarrow> bool)
     \<Rightarrow> bool list option" where
  "contains_kernel tile_size [] view hash key_equal = Some []"
| "contains_kernel tile_size (key # rest) view hash key_equal =
     (case device_view_contains_cg tile_size view key hash key_equal of
        None \<Rightarrow> None
      | Some found \<Rightarrow>
          map_option (Cons found) (contains_kernel tile_size rest view hash key_equal))"

definition static_map_insert ::
  "bool \<Rightarrow> nat \<Rightarrow> ('k, 'v) static_map \<Rightarrow> ('k \<times> 'v) list \<Rightarrow> ('k \<Rightarrow> nat) \<Rightarrow> ('k \<Rightarrow> 'k \<Rightarrow> bool)
     \<Rightarrow> (('k, 'v) static_map, unit) host_result" where
  "static_map_insert is_packable cuda_arch m items hash key_equal =
     (let num_keys = length items
      in if num_keys = 0 then \<lparr>calls = [], outcome = Some (m, ())\<rparr>
         else
           (let block_size = 128; stride = 1; tile_size = 4;
                grid_size = (tile_size * num_keys + stride * block_size - 1)
                              div (stride * block_size);
                view = get_device_mutable_view m
            in \<lparr>calls = [MemsetAsync, KernelLaunch grid_size block_size, MemcpyAsync,
                         StreamSynchronize],
                outcome =
                  (case insert_kernel is_packable cuda_arch tile_size items 0 view
                          hash key_equal of
                     None \<Rightarrow> None
                   | Some (h_num_successes, view') \<Rightarrow>
                       Some (m\<lparr>slots := slots view',
                               map_size := map_size m + h_num_successes,
                               num_successes := h_num_successes\<rparr>, ()))\<rparr>))"

definition static_map_insert_if ::
  "bool \<Rightarrow> nat \<Rightarrow> ('k, 'v) static_map \<Rightarrow> ('k \<times> 'v) list \<Rightarrow> (nat \<Rightarrow> 's) \<Rightarrow> ('s \<Rightarrow> bool)
     \<Rightarrow> ('k \<Rightarrow> nat) \<Rightarrow> ('k \<Rightarrow> 'k \<Rightarrow> bool) \<Rightarrow> (('k, 'v) static_map, unit) host_result" where
  "static_map_insert_if is_packable cuda_arch m items stencil pred hash key_equal =
     (let num_keys = length items
      in if num_keys = 0 then \<lparr>calls = [], outcome = Some (m, ())\<rparr>
         else
           (let block_size = 128; stride = 1; tile_size = 4;
                grid_size = (tile_size * num_keys + stride * block_size - 1)
                              div (stride * block_size);
                view = get_device_mutable_view m
            in \<lparr>calls = [MemsetAsync, KernelLaunch grid_size block_size, MemcpyAsync,
                         StreamSynchronize],
                outcome =
                  (case insert_if_n_kernel is_packable cuda_arch tile_size items 0 0 view
                          stencil pred hash key_equal of
                     None \<Rightarrow> None
                   | Some (h_num_successes, view') \<Rightarrow>
                       Some (m\<lparr>slots := slots view',
                               map_size := map_size m + h_num_successes,
                               num_successes := h_num_successes\<rparr>, ()))\<rparr>))"

definition static_map_find ::
  "('k, 'v) static_map \<Rightarrow> 'k list \<Rightarrow> ('k \<Rightarrow> nat) \<Rightarrow> ('k \<Rightarrow> 'k \<Rightarrow> bool)
     \<Rightarrow> (('k, 'v) static_map, 'v list) host_result" where
  "static_map_find m keys hash key_equal =
     (let num_keys = length keys
      in if num_keys = 0 then \<lparr>calls = [], outcome = Some (m, [])\<rparr>
         else
           (let block_size = 128; stride = 1; tile_size = 4;
                grid_size = (tile_size * num_keys + stride * block_size - 1)
                              div (stride * block_size);
                view = get_device_view m
            in \<lparr>calls = [KernelLaunch grid_size block_size],
                outcome = map_option (Pair m) (find_kernel tile_size keys view hash key_equal)\<rparr>))"

definition static_map_contains ::
  "('k, 'v) static_map \<Rightarrow> 'k list \<Rightarrow> ('k \<Rightarrow> nat) \<Rightarrow> ('k \<Rightarrow> 'k \<Rightarrow> bool)
     \<Rightarrow> (('k, 'v) static_map, bool list) host_result" where
  "static_map_contains m keys hash key_equal =
     (let num_keys = length keys
      in if num_keys = 0 then \<lparr>calls = [], outcome = Some (m, [])\<rparr>
         else
           (let block_size = 128; stride = 1; tile_size = 4;
                grid_size = (tile_size * num_keys + stride * block_size - 1)
                              div (stride * block_size);
                view = get_device_view m
            in \<lparr>calls = [KernelLaunch grid_size block_size],
                outcome =
                  map_option (Pair m) (contains_kernel tile_size keys view hash key_equal)\<rparr>))"

section \<open>The multimap\<close>

text \<open>
  Modelled from the spec: \<open>get_valid_capacity\<close> (a utility header that is not among the
  implementation files) rounds the requested capacity up to a multiple of
  \<open>cg_size \<times> vector_width\<close>.
\<close>

definition get_valid_capacity :: "nat \<Rightarrow> nat \<Rightarrow> nat \<Rightarrow> nat" where
  "get_valid_capacity cg_size vector_width cap =
     (let stride = cg_size * vector_width
      in ((cap + stride - 1) div stride) * stride)"

definition static_multimap_construct ::
  "nat \<Rightarrow> nat \<Rightarrow> nat \<Rightarrow> 'k \<Rightarrow> 'v \<Rightarrow> ('k, 'v) static_multimap" where
  "static_multimap_construct cg_size vector_width cap empty_key empty_value =
     \<lparr>slots = initialize (get_valid_capacity cg_size vector_width cap) empty_key empty_value,
      capacity = get_valid_capacity cg_size vector_width cap,
      empty_key_sentinel = empty_key,
      empty_value_sentinel = empty_value,
      d_counter = 0\<rparr>"

text \<open>
  A launch with an empty grid starts no block, so nothing of the kernel runs; \<open>idle\<close> is
  the state the stream then leaves behind.
\<close>

definition launched :: "nat \<Rightarrow> 'a \<Rightarrow> 'a \<Rightarrow> 'a" where
  "launched grid_size run idle = (if grid_size = 0 then idle else run)"

text \<open>
  The kernels of the multimap and the device operations behind \<open>impl_\<close> are not among
  the implementation files.  Each bulk operation below takes the kernel it launches as
  the parameter \<open>kern\<close>: applied to the arguments of the launch it gives what the
  kernel leaves behind (the slots after an insert, the bools written by \<open>contains\<close>, the
  final value of the device counter for the counting and retrieving kernels), or \<open>None\<close>
  when it does not terminate.  \<open>cg_size\<close> is the group size of the probe sequence the
  multimap is instantiated with.  Output iterators are offsets, so advancing one is
  addition.
\<close>

definition static_multimap_insert ::
  "nat \<Rightarrow> (('k \<times> 'v) list \<Rightarrow> ('k, 'v) device_view \<Rightarrow> ('k, 'v) device_view option)
     \<Rightarrow> ('k, 'v) static_multimap \<Rightarrow> ('k \<times> 'v) list
     \<Rightarrow> (('k, 'v) static_multimap, unit) host_result" where
  "static_multimap_insert cg_size kern m items =
     (let num_keys = length items;
          view = get_device_mutable_view m;
          block_size = 128; stride = 1;
          grid_size = (cg_size * num_keys + stride * block_size - 1) div (stride * block_size)
      in \<lparr>calls = [KernelLaunch grid_size block_size, StreamSynchronize],
          outcome =
            map_option (\<lambda>view'. (m\<lparr>slots := slots view'\<rparr>, ()))
              (launched grid_size (kern items view) (Some view))\<rparr>)"

definition static_multimap_insert_if ::
  "nat \<Rightarrow> (('k \<times> 'v) list \<Rightarrow> (nat \<Rightarrow> 's) \<Rightarrow> ('k, 'v) device_view \<Rightarrow> ('s \<Rightarrow> bool)
           \<Rightarrow> ('k, 'v) device_view option)
     \<Rightarrow> ('k, 'v) static_multimap \<Rightarrow> ('k \<times> 'v) list \<Rightarrow> (nat \<Rightarrow> 's) \<Rightarrow> ('s \<Rightarrow> bool)
     \<Rightarrow> (('k, 'v) static_multimap, unit) host_result" where
  "static_multimap_insert_if cg_size kern m items stencil pred =
     (let num_elements = length items;
          view = get_device_mutable_view m;
          block_size = 128; stride = 1;
          grid_size = (cg_size * num_elements + stride * block_size - 1)
                        div (stride * block_size)
      in \<lparr>calls = [KernelLaunch grid_size block_size, StreamSynchronize],
          outcome =
            map_option (\<lambda>view'. (m\<lparr>slots := slots view'\<rparr>, ()))
              (launched grid_size (kern items stencil view pred) (Some view))\<rparr>)"

definition static_multimap_contains ::
  "nat \<Rightarrow> ('k list \<Rightarrow> ('k, 'v) device_view \<Rightarrow> ('k \<Rightarrow> 'k \<Rightarrow> bool) \<Rightarrow> bool list option)
     \<Rightarrow> ('k, 'v) static_multimap \<Rightarrow> 'k list \<Rightarrow> ('k \<Rightarrow> 'k \<Rightarrow> bool)
     \<Rightarrow> (('k, 'v) static_multimap, bool list) host_result" where
  "static_multimap_contains cg_size kern m keys key_equal =
     (let num_keys = length keys;
          view = get_device_view m;
          block_size = 128; stride = 1;
          grid_size = (cg_size * num_keys + stride * block_size - 1) div (stride * block_size)
      in \<lparr>calls = [KernelLaunch grid_size block_size, StreamSynchronize],
          outcome =
            map_option (Pair m) (launched grid_size (kern keys view key_equal) (Some []))\<rparr>)"

text \<open>
  The counting operations share one shape: zero the device counter, launch, copy the
  counter to the host, synchronize, return the copy.  \<open>count\<close> and \<open>count_outer\<close> launch
  the same kernel with \<open>is_outer\<close> false and true, and so do \<open>pair_count\<close> and
  \<open>pair_count_outer\<close>.
\<close>

definition static_multimap_count ::
  "nat \<Rightarrow> (bool \<Rightarrow> 'k list \<Rightarrow> nat \<Rightarrow> ('k, 'v) device_view \<Rightarrow> ('k \<Rightarrow> 'k \<Rightarrow> bool) \<Rightarrow> nat option)
     \<Rightarrow> ('k, 'v) static_multimap \<Rightarrow> 'k list \<Rightarrow> ('k \<Rightarrow> 'k \<Rightarrow> bool)
     \<Rightarrow> (('k, 'v) static_multimap, nat) host_result" where
  "static_multimap_count cg_size kern m keys key_equal =
     (let num_keys = length keys;
          view = get_device_view m;
          is_outer = False; block_size = 128; stride = 1;
          grid_size = (cg_size * num_keys + stride * block_size - 1) div (stride * block_size)
      in \<lparr>calls = [MemsetAsync, KernelLaunch grid_size block_size, MemcpyAsync,
                   StreamSynchronize],
          outcome =
            map_option (\<lambda>h_counter. (m\<lparr>d_counter := h_counter\<rparr>, h_counter))
              (launched grid_size (kern is_outer keys 0 view key_equal) (Some 0))\<rparr>)"

definition static_multimap_count_outer ::
  "nat \<Rightarrow> (bool \<Rightarrow> 'k list \<Rightarrow> nat \<Rightarrow> ('k, 'v) device_view \<Rightarrow> ('k \<Rightarrow> 'k \<Rightarrow> bool) \<Rightarrow> nat option)
     \<Rightarrow> ('k, 'v) static_multimap \<Rightarrow> 'k list \<Rightarrow> ('k \<Rightarrow> 'k \<Rightarrow> bool)
     \<Rightarrow> (('k, 'v) static_multimap, nat) host_result" where
  "static_multimap_count_outer cg_size kern m keys key_equal =
     (let num_keys = length keys;
          view = get_device_view m;
          is_outer = True; block_size = 128; stride = 1;
          grid_size = (cg_size * num_keys + stride * block_size - 1) div (stride * block_size)
      in \<lparr>calls = [MemsetAsync, KernelLaunch grid_size block_size, MemcpyAsync,
                   StreamSynchronize],
          outcome =
            map_option (\<lambda>h_counter. (m\<lparr>d_counter := h_counter\<rparr>, h_counter))
              (launched grid_size (kern is_outer keys 0 view key_equal) (Some 0))\<rparr>)"

definition static_multimap_pair_count ::
  "nat \<Rightarrow> (bool \<Rightarrow> ('k \<times> 'v) list \<Rightarrow> nat \<Rightarrow> ('k, 'v) device_view
           \<Rightarrow> ('k \<times> 'v \<Rightarrow> 'k \<times> 'v \<Rightarrow> bool) \<Rightarrow> nat option)
     \<Rightarrow> ('k, 'v) static_multimap \<Rightarrow> ('k \<times> 'v) list \<Rightarrow> ('k \<times> 'v \<Rightarrow> 'k \<times> 'v \<Rightarrow> bool)
     \<Rightarrow> (('k, 'v) static_multimap, nat) host_result" where
  "static_multimap_pair_count cg_size kern m pairs pair_equal =
     (let num_keys = length pairs;
          view = get_device_view m;
          is_outer = False; block_size = 128; stride = 1;
          grid_size = (cg_size * num_keys + stride * block_size - 1) div (stride * block_size)
      in \<lparr>calls = [MemsetAsync, KernelLaunch grid_size block_size, MemcpyAsync,
                   StreamSynchronize],
          outcome =
            map_option (\<lambda>h_counter. (m\<lparr>d_counter := h_counter\<rparr>, h_counter))
              (launched grid_size (kern is_outer pairs 0 view pair_equal) (Some 0))\<rparr>)"

definition static_multimap_pair_count_outer ::
  "nat \<Rightarrow> (bool \<Rightarrow> ('k \<times> 'v) list \<Rightarrow> nat \<Rightarrow> ('k, 'v) device_view
           \<Rightarrow> ('k \<times> 'v \<Rightarrow> 'k \<times> 'v \<Rightarrow> bool) \<Rightarrow> nat option)
     \<Rightarrow> ('k, 'v) static_multimap \<Rightarrow> ('k \<times> 'v) list \<Rightarrow> ('k \<times> 'v \<Rightarrow> 'k \<times> 'v \<Rightarrow> bool)
     \<Rightarrow> (('k, 'v) static_multimap, nat) host_result" where
  "static_multimap_pair_count_outer cg_size kern m pairs pair_equal =
     (let num_keys = length pairs;
          view = get_device_view m;
          is_outer = True; block_size = 128; stride = 1;
          grid_size = (cg_size * num_keys + stride * block_size - 1) div (stride * block_size)
      in \<lparr>calls = [MemsetAsync, KernelLaunch grid_size block_size, MemcpyAsync,
                   StreamSynchronize],
          outcome =
            map_option (\<lambda>h_counter. (m\<lparr>d_counter := h_counter\<rparr>, h_counter))
              (launched grid_size (kern is_outer pairs 0 view pair_equal) (Some 0))\<rparr>)"

text \<open>
  The retrieving operations return the output iterator advanced by the final value of
  the counter.  \<open>retrieve\<close> and \<open>retrieve_outer\<close> take their grid size from
  \<open>detail::get_grid_size\<close> (an occupancy query, here the parameter \<open>grid_size\<close>); the
  pair forms compute it from the number of pairs.
\<close>

definition static_multimap_retrieve ::
  "nat \<Rightarrow> (bool \<Rightarrow> 'k list \<Rightarrow> nat \<Rightarrow> nat \<Rightarrow> ('k, 'v) device_view \<Rightarrow> ('k \<Rightarrow> 'k \<Rightarrow> bool)
           \<Rightarrow> nat option)
     \<Rightarrow> ('k, 'v) static_multimap \<Rightarrow> 'k list \<Rightarrow> nat \<Rightarrow> ('k \<Rightarrow> 'k \<Rightarrow> bool)
     \<Rightarrow> (('k, 'v) static_multimap, nat) host_result" where
  "static_multimap_retrieve grid_size kern m keys output_begin key_equal =
     (let num_keys = length keys;
          view = get_device_view m;
          block_size = 128; is_outer = False
      in \<lparr>calls = [MemsetAsync, KernelLaunch grid_size block_size, MemcpyAsync,
                   StreamSynchronize],
          outcome =
            map_option
              (\<lambda>h_counter. (m\<lparr>d_counter := h_counter\<rparr>,
                             (let output_end = output_begin + h_counter in output_end)))
              (launched grid_size (kern is_outer keys output_begin 0 view key_equal)
                 (Some 0))\<rparr>)"

definition static_multimap_retrieve_outer ::
  "nat \<Rightarrow> (bool \<Rightarrow> 'k list \<Rightarrow> nat \<Rightarrow> nat \<Rightarrow> ('k, 'v) device_view \<Rightarrow> ('k \<Rightarrow> 'k \<Rightarrow> bool)
           \<Rightarrow> nat option)
     \<Rightarrow> ('k, 'v) static_multimap \<Rightarrow> 'k list \<Rightarrow> nat \<Rightarrow> ('k \<Rightarrow> 'k \<Rightarrow> bool)
     \<Rightarrow> (('k, 'v) static_multimap, nat) host_result" where
  "static_multimap_retrieve_outer grid_size kern m keys output_begin key_equal =
     (let num_keys = length keys;
          view = get_device_view m;
          block_size = 128; is_outer = True
      in \<lparr>calls = [MemsetAsync, KernelLaunch grid_size block_size, MemcpyAsync,
                   StreamSynchronize],
          outcome =
            map_option
              (\<lambda>h_counter. (m\<lparr>d_counter := h_counter\<rparr>,
                             (let output_end = output_begin + h_counter in output_end)))
              (launched grid_size (kern is_outer keys output_begin 0 view key_equal)
                 (Some 0))\<rparr>)"

definition static_multimap_pair_retrieve ::
  "nat \<Rightarrow> (bool \<Rightarrow> ('k \<times> 'v) list \<Rightarrow> nat \<Rightarrow> nat \<Rightarrow> nat \<Rightarrow> ('k, 'v) device_view
           \<Rightarrow> ('k \<times> 'v \<Rightarrow> 'k \<times> 'v \<Rightarrow> bool) \<Rightarrow> nat option)
     \<Rightarrow> ('k, 'v) static_multimap \<Rightarrow> ('k \<times> 'v) list \<Rightarrow> nat \<Rightarrow> nat
     \<Rightarrow> ('k \<times> 'v \<Rightarrow> 'k \<times> 'v \<Rightarrow> bool)
     \<Rightarrow> (('k, 'v) static_multimap, nat \<times> nat) host_result" where
  "static_multimap_pair_retrieve cg_size kern m pairs probe_output_begin
       contained_output_begin pair_equal =
     (let num_pairs = length pairs;
          view = get_device_view m;
          block_size = 128; is_outer = False; stride = 1;
          grid_size = (cg_size * num_pairs + stride * block_size - 1)
                        div (stride * block_size)
      in \<lparr>calls = [MemsetAsync, KernelLaunch grid_size block_size, MemcpyAsync,
                   StreamSynchronize],
          outcome =
            map_option
              (\<lambda>h_counter. (m\<lparr>d_counter := h_counter\<rparr>,
                             (probe_output_begin + h_counter,
                              contained_output_begin + h_counter)))
              (launched grid_size
                 (kern is_outer pairs probe_output_begin contained_output_begin 0 view
                    pair_equal)
                 (Some 0))\<rparr>)"

definition static_multimap_pair_retrieve_outer ::
  "nat \<Rightarrow> (bool \<Rightarrow> ('k \<times> 'v) list \<Rightarrow> nat \<Rightarrow> nat \<Rightarrow> nat \<Rightarrow> ('k, 'v) device_view
           \<Rightarrow> ('k \<times> 'v \<Rightarrow> 'k \<times> 'v \<Rightarrow> bool) \<Rightarrow> nat option)
     \<Rightarrow> ('k, 'v) static_multimap \<Rightarrow> ('k \<times> 'v) list \<Rightarrow> nat \<Rightarrow> nat
     \<Rightarrow> ('k \<times> 'v \<Rightarrow> 'k \<times> 'v \<Rightarrow> bool)
     \<Rightarrow> (('k, 'v) static_multimap, nat \<times> nat) host_result" where
  "static_multimap_pair_retrieve_outer cg_size kern m pairs probe_output_begin
       contained_output_begin pair_equal =
     (let num_pairs = length pairs;
          view = get_device_view m;
          block_size = 128; is_outer = True; stride = 1;
          grid_size = (cg_size * num_pairs + stride * block_size - 1)
                        div (stride * block_size)
      in \<lparr>calls = [MemsetAsync, KernelLaunch grid_size block_size, MemcpyAsync,
                   StreamSynchronize],
          outcome =
            map_option
              (\<lambda>h_counter. (m\<lparr>d_counter := h_counter\<rparr>,
                             (probe_output_begin + h_counter,
                              contained_output_begin + h_counter)))
              (launched grid_size
                 (kern is_outer pairs probe_output_begin contained_output_begin 0 view
                    pair_equal)
                 (Some 0))\<rparr>)"

text \<open>
  \<open>get_size\<close> counts, over the keys of all slots, those that \<open>slot_is_filled\<close> accepts.
  The functor compares with the key type's own \<open>operator!=\<close>, here the parameter
  \<open>key_ne\<close>.
\<close>

definition slot_is_filled :: "('k \<Rightarrow> 'k \<Rightarrow> bool) \<Rightarrow> 'k \<Rightarrow> 'k \<Rightarrow> bool" where
  "slot_is_filled key_ne empty_key k = key_ne k empty_key"

definition static_multimap_get_size ::
  "('k \<Rightarrow> 'k \<Rightarrow> bool) \<Rightarrow> ('k, 'v) static_multimap \<Rightarrow> nat" where
  "static_multimap_get_size key_ne m =
     (let begin_keys = map fst (slots m);
          filled = slot_is_filled key_ne (empty_key_sentinel m)
      in length (filter filled (take (capacity m) begin_keys)))"

text \<open>
  Modelled from the spec: the counting kernel \<open>detail::count\<close> and the device
  operation \<open>count\<close> behind \<open>impl_\<close> are not among the implementation files.  The
  per-key probe walks the windows of the key's probe sequence and accumulates the
  matches of the lanes until a window holds an empty slot; the outer variant adds one
  when the probing key has zero matches; the kernel adds every key's count to the
  device counter.  The probe sequence is the template parameter of the multimap: its
  group size, the slot a lane starts at and the slot that follows a slot.
\<close>

record 'k probe_sequence =
  cg_size_of :: nat
  initial_slot_of :: "nat \<Rightarrow> nat \<Rightarrow> 'k \<Rightarrow> nat"
  next_slot_of :: "nat \<Rightarrow> 'k \<Rightarrow> nat \<Rightarrow> nat"

partial_function (option) count_probe ::
  "'k probe_sequence \<Rightarrow> ('k \<Rightarrow> 'k \<Rightarrow> bool) \<Rightarrow> 'k \<Rightarrow> ('k, 'v) device_view \<Rightarrow> nat list \<Rightarrow> nat
     \<Rightarrow> nat option" where
  "count_probe ps key_equal k v current_slot counted =
     (let existing_key = map (\<lambda>s. fst (slots v ! s)) current_slot;
          matches = filter (\<lambda>e. \<not> bitwise_compare e (empty_key_sentinel v) \<and> key_equal e k)
                      existing_key;
          counted' = counted + length matches
      in if list_ex (\<lambda>e. bitwise_compare e (empty_key_sentinel v)) existing_key
         then Some counted'
         else count_probe ps key_equal k v
                (map (next_slot_of ps (capacity v) k) current_slot) counted')"

declare count_probe.simps [code]

definition device_view_count ::
  "'k probe_sequence \<Rightarrow> bool \<Rightarrow> ('k, 'v) device_view \<Rightarrow> 'k \<Rightarrow> ('k \<Rightarrow> 'k \<Rightarrow> bool)
     \<Rightarrow> nat option" where
  "device_view_count ps is_outer v k key_equal =
     map_option (\<lambda>counted. if is_outer \<and> counted = 0 then 1 else counted)
       (count_probe ps key_equal k v
          (map (\<lambda>thread_rank. initial_slot_of ps (capacity v) thread_rank k)
             [0..<cg_size_of ps])
          0)"

fun count_kernel ::
  "'k probe_sequence \<Rightarrow> bool \<Rightarrow> 'k list \<Rightarrow> nat \<Rightarrow> ('k, 'v) device_view \<Rightarrow> ('k \<Rightarrow> 'k \<Rightarrow> bool)
     \<Rightarrow> nat option" where
  "count_kernel ps is_outer [] counter view key_equal = Some counter"
| "count_kernel ps is_outer (key # rest) counter view key_equal =
     (case device_view_count ps is_outer view key key_equal of
        None \<Rightarrow> None
      | Some counted \<Rightarrow> count_kernel ps is_outer rest (counter + counted) view key_equal)"

text \<open>
  The number of query keys whose individual match count is zero: the count a single-key
  launch of the inner counting kernel leaves in a zeroed counter.
\<close>

definition unmatched ::
  "'k probe_sequence \<Rightarrow> ('k, 'v) device_view \<Rightarrow> ('k \<Rightarrow> 'k \<Rightarrow> bool) \<Rightarrow> 'k list \<Rightarrow> nat" where
  "unmatched ps view key_equal keys =
     length (filter (\<lambda>q. count_kernel ps False [q] 0 view key_equal = Some 0) keys)"

section \<open>Per-item reports of the insert kernels\<close>

text \<open>
  What the per-item insertions of one kernel launch report, in the order the kernel
  takes the work items: \<open>True\<close> for an insertion that returned with status \<open>SUCCESS\<close>,
  \<open>False\<close> for one that met its key.  An item that \<open>insert_if_n\<close> filters out reports
  nothing.  These lists are read off the device insertions themselves, not off the
  kernel's counter.
\<close>

fun insert_reports ::
  "bool \<Rightarrow> nat \<Rightarrow> nat \<Rightarrow> ('k \<times> 'v) list \<Rightarrow> ('k, 'v) device_view \<Rightarrow> ('k \<Rightarrow> nat)
     \<Rightarrow> ('k \<Rightarrow> 'k \<Rightarrow> bool) \<Rightarrow> bool list option" where
  "insert_reports is_packable cuda_arch tile_size [] view hash key_equal = Some []"
| "insert_reports is_packable cuda_arch tile_size (insert_pair # rest) view hash key_equal =
     (case device_mutable_view_insert_cg is_packable cuda_arch tile_size view insert_pair
             hash key_equal of
        None \<Rightarrow> None
      | Some (inserted, view') \<Rightarrow>
          map_option (Cons inserted)
            (insert_reports is_packable cuda_arch tile_size rest view' hash key_equal))"

fun insert_if_n_reports ::
  "bool \<Rightarrow> nat \<Rightarrow> nat \<Rightarrow> ('k \<times> 'v) list \<Rightarrow> nat \<Rightarrow> ('k, 'v) device_view \<Rightarrow> (nat \<Rightarrow> 's)
     \<Rightarrow> ('s \<Rightarrow> bool) \<Rightarrow> ('k \<Rightarrow> nat) \<Rightarrow> ('k \<Rightarrow> 'k \<Rightarrow> bool) \<Rightarrow> bool list option" where
  "insert_if_n_reports is_packable cuda_arch tile_size [] i view stencil pred hash key_equal =
     Some []"
| "insert_if_n_reports is_packable cuda_arch tile_size (insert_pair # rest) i view stencil pred
       hash key_equal =
     (if pred (stencil i) then
        (case device_mutable_view_insert_cg is_packable cuda_arch tile_size view insert_pair
                hash key_equal of
           None \<Rightarrow> None
         | Some (inserted, view') \<Rightarrow>
             map_option (Cons inserted)
               (insert_if_n_reports is_packable cuda_arch tile_size rest (Suc i) view'
                  stencil pred hash key_equal))
      else insert_if_n_reports is_packable cuda_arch tile_size rest (Suc i) view stencil pred
             hash key_equal)"

text \<open>
  A history of bulk inserts on one map: each call is an \<open>insert\<close> or an \<open>insert_if\<close>.
  \<open>run_calls\<close> performs them in order and lists, per call, the number of its insertions
  that reported \<open>SUCCESS\<close>.
\<close>

datatype ('k, 'v, 's) bulk_call =
  Insert "('k \<times> 'v) list"
| InsertIf "('k \<times> 'v) list" "nat \<Rightarrow> 's" "'s \<Rightarrow> bool"

definition call_outcome ::
  "bool \<Rightarrow> nat \<Rightarrow> ('k \<Rightarrow> nat) \<Rightarrow> ('k \<Rightarrow> 'k \<Rightarrow> bool) \<Rightarrow> ('k, 'v) static_map
     \<Rightarrow> ('k, 'v, 's) bulk_call \<Rightarrow> ('k, 'v) static_map option" where
  "call_outcome is_packable cuda_arch hash key_equal m c =
     (case c of
        Insert items \<Rightarrow>
          map_option fst (outcome (static_map_insert is_packable cuda_arch m items hash key_equal))
      | InsertIf items stencil pred \<Rightarrow>
          map_option fst
            (outcome (static_map_insert_if is_packable cuda_arch m items stencil pred
                        hash key_equal)))"

definition call_reports ::
  "bool \<Rightarrow> nat \<Rightarrow> ('k \<Rightarrow> nat) \<Rightarrow> ('k \<Rightarrow> 'k \<Rightarrow> bool) \<Rightarrow> ('k, 'v) static_map
     \<Rightarrow> ('k, 'v, 's) bulk_call \<Rightarrow> bool list option" where
  "call_reports is_packable cuda_arch hash key_equal m c =
     (case c of
        Insert items \<Rightarrow>
          insert_reports is_packable cuda_arch 4 items (get_device_mutable_view m)
            hash key_equal
      | InsertIf items stencil pred \<Rightarrow>
          insert_if_n_reports is_packable cuda_arch 4 items 0 (get_device_mutable_view m)
            stencil pred hash key_equal)"

fun run_calls ::
  "bool \<Rightarrow> nat \<Rightarrow> ('k \<Rightarrow> nat) \<Rightarrow> ('k \<Rightarrow> 'k \<Rightarrow> bool) \<Rightarrow> ('k, 'v) static_map
     \<Rightarrow> ('k, 'v, 's) bulk_call list \<Rightarrow> (('k, 'v) static_map \<times> nat list) option" where
  "run_calls is_packable cuda_arch hash key_equal m [] = Some (m, [])"
| "run_calls is_packable cuda_arch hash key_equal m (c # cs) =
     (case call_outcome is_packable cuda_arch hash key_equal m c of
        None \<Rightarrow> None
      | Some m' \<Rightarrow>
          (case call_reports is_packable cuda_arch hash key_equal m c of
             None \<Rightarrow> None
           | Some reports \<Rightarrow>
               map_option (\<lambda>(m_final, successes). (m_final, length (filter (\<lambda>r. r) reports) # successes))
                 (run_calls is_packable cuda_arch hash key_equal m' cs)))"

section \<open>What the retries of the back-to-back protocol meet\<close>

text \<open>
  \<open>slot_seen others s n\<close> is the slot as the retry number \<open>n\<close> (counting from zero) of
  the value-cell loop meets it, when the loop starts on the slot \<open>s\<close> and the other
  workers act as \<open>others\<close> says.  A failed CAS leaves the cell as it was, so only the
  other workers change what the next retry meets.
\<close>

fun slot_seen :: "(('k, 'v) slot \<Rightarrow> ('k, 'v) slot) list \<Rightarrow> ('k, 'v) slot \<Rightarrow> nat \<Rightarrow> ('k, 'v) slot" where
  "slot_seen others s 0 = after_others others s"
| "slot_seen others s (Suc n) = slot_seen (tl others) (after_others others s) n"

section \<open>Key types whose comparison is not bitwise\<close>

text \<open>
  For keys of type \<open>float\<close>, held as their IEEE 754 binary32 bit patterns, the key type's
  \<open>operator!=\<close> is not the bitwise comparison: a NaN differs from every value, itself
  included, and the two zeros do not differ.
\<close>

definition float_is_nan :: "32 word \<Rightarrow> bool" where
  "float_is_nan w \<longleftrightarrow> w AND 0x7F800000 = 0x7F800000 \<and> w AND 0x007FFFFF \<noteq> 0"

definition float_ne :: "32 word \<Rightarrow> 32 word \<Rightarrow> bool" where
  "float_ne a b \<longleftrightarrow>
     float_is_nan a \<or> float_is_nan b
     \<or> (a \<noteq> b \<and> \<not> (a AND 0x7FFFFFFF = 0 \<and> b AND 0x7FFFFFFF = 0))"

section \<open>Sequences of device insertions and the invariants of the slot array\<close>






text \<open>
  The slot that the probe of key \<open>k\<close> reaches after \<open>t\<close> steps.  The lanes of the windowed
  form walk the same sequence, \<open>g_size\<close> positions at a time.
\<close>

definition probe_pos :: "('k, 'v) device_view \<Rightarrow> ('k \<Rightarrow> nat) \<Rightarrow> 'k \<Rightarrow> nat \<Rightarrow> nat" where
  "probe_pos v hash k t = (hash k + t) mod capacity v"

definition window :: "('k, 'v) device_view \<Rightarrow> ('k \<Rightarrow> nat) \<Rightarrow> 'k \<Rightarrow> nat \<Rightarrow> nat \<Rightarrow> nat list" where
  "window v hash k g_size m = map (\<lambda>r. probe_pos v hash k (m * g_size + r)) [0..<g_size]"

text \<open>
  The invariants.  A view is well formed when its capacity is the length of its slot
  array and is not zero.  An empty key cell goes with an empty value cell.  No hole: the
  probe of a key that some slot holds meets no empty slot before that slot.  Unique keys:
  no two slots hold the same non-sentinel key.
\<close>

definition wf_view :: "('k, 'v) device_view \<Rightarrow> bool" where
  "wf_view v \<longleftrightarrow> length (slots v) = capacity v \<and> 0 < capacity v"








section \<open>Launch geometry and the calls of the bulk operations\<close>

lemma grid_positive:
  "0 < c \<Longrightarrow> 0 < n \<Longrightarrow> (c * n + 1 * 128 - 1) div (1 * 128) \<noteq> (0::nat)"
proof -
  assume "0 < c" "0 < n"
  then have "1 \<le> c * n" by (simp add: Suc_leI)
  then have "128 \<le> c * n + 1 * 128 - 1" by simp
  then show ?thesis by (simp add: div_eq_0_iff)
qed

lemma static_map_empty_range_noop:
  "static_map_insert is_packable cuda_arch m [] hash key_equal
     = \<lparr>calls = [], outcome = Some (m, ())\<rparr>"
  "static_map_insert_if is_packable cuda_arch m [] stencil pred hash key_equal
     = \<lparr>calls = [], outcome = Some (m, ())\<rparr>"
  "static_map_find m [] hash key_equal = \<lparr>calls = [], outcome = Some (m, [])\<rparr>"
  "static_map_contains m [] hash key_equal = \<lparr>calls = [], outcome = Some (m, [])\<rparr>"
  by (simp_all add: static_map_insert_def static_map_insert_if_def static_map_find_def
      static_map_contains_def)

text \<open>
  C6 (the code departs from the claim).  Every bulk operation of the map returns at once
  on an empty range (\<open>static_map_empty_range_noop\<close>).  The multimap has no such test:
  on an empty range each of its bulk operations still computes a grid of zero blocks,
  issues the launch and synchronizes the stream; the counting and retrieving ones also
  zero and copy back the device counter.
\<close>

theorem multimap_empty_range_still_launches:
  "calls (static_multimap_insert cg_size kern_insert m [])
     = [KernelLaunch 0 128, StreamSynchronize]
   \<and> calls (static_multimap_insert_if cg_size kern_insert_if m [] stencil pred)
     = [KernelLaunch 0 128, StreamSynchronize]
   \<and> calls (static_multimap_contains cg_size kern_contains m [] key_equal)
     = [KernelLaunch 0 128, StreamSynchronize]
   \<and> calls (static_multimap_count cg_size kern_count m [] key_equal)
     = [MemsetAsync, KernelLaunch 0 128, MemcpyAsync, StreamSynchronize]
   \<and> calls (static_multimap_count_outer cg_size kern_count m [] key_equal)
     = [MemsetAsync, KernelLaunch 0 128, MemcpyAsync, StreamSynchronize]
   \<and> calls (static_multimap_pair_count cg_size kern_pair_count m [] pair_equal)
     = [MemsetAsync, KernelLaunch 0 128, MemcpyAsync, StreamSynchronize]
   \<and> calls (static_multimap_pair_count_outer cg_size kern_pair_count m [] pair_equal)
     = [MemsetAsync, KernelLaunch 0 128, MemcpyAsync, StreamSynchronize]
   \<and> calls (static_multimap_retrieve grid_size kern_retrieve m [] output_begin key_equal)
     = [MemsetAsync, KernelLaunch grid_size 128, MemcpyAsync, StreamSynchronize]
   \<and> calls (static_multimap_retrieve_outer grid_size kern_retrieve m [] output_begin key_equal)
     = [MemsetAsync, KernelLaunch grid_size 128, MemcpyAsync, StreamSynchronize]
   \<and> calls (static_multimap_pair_retrieve cg_size kern_pair_retrieve m [] probe_output_begin
               contained_output_begin pair_equal)
     = [MemsetAsync, KernelLaunch 0 128, MemcpyAsync, StreamSynchronize]
   \<and> calls (static_multimap_pair_retrieve_outer cg_size kern_pair_retrieve m []
               probe_output_begin contained_output_begin pair_equal)
     = [MemsetAsync, KernelLaunch 0 128, MemcpyAsync, StreamSynchronize]"
  by (simp add: static_multimap_insert_def static_multimap_insert_if_def
      static_multimap_contains_def static_multimap_count_def static_multimap_count_outer_def
      static_multimap_pair_count_def static_multimap_pair_count_outer_def
      static_multimap_retrieve_def static_multimap_retrieve_outer_def
      static_multimap_pair_retrieve_def static_multimap_pair_retrieve_outer_def Let_def)

text \<open>
  C7, as stated, fails: the multimap's \<open>insert\<close> returns no count and still synchronizes
  the stream before it returns.
\<close>

theorem multimap_insert_synchronizes:
  "StreamSynchronize \<in> set (calls
     (static_multimap_insert 4 (\<lambda>items view. Some view)
        (static_multimap_construct 4 1 8 (- 1 :: int) (- 1 :: int)) [(1, 10)]))"
  by (simp add: static_multimap_insert_def Let_def)

text \<open>
  C7, amended.  The map's \<open>find\<close> and \<open>contains\<close> only launch their kernel and never
  synchronize.  The map's \<open>insert\<close> and \<open>insert_if\<close> issue nothing on an empty range and
  otherwise end with a stream synchronization.  Every bulk operation of the multimap ends
  with a stream synchronization, also \<open>insert\<close>, \<open>insert_if\<close> and \<open>contains\<close>, which
  return no count.
\<close>

theorem stream_synchronization_discipline:
  "StreamSynchronize \<notin> set (calls (static_map_find m keys hash key_equal))
   \<and> StreamSynchronize \<notin> set (calls (static_map_contains m keys hash key_equal))
   \<and> calls (static_map_insert is_packable cuda_arch m items hash key_equal)
       = (if items = [] then []
          else [MemsetAsync, KernelLaunch ((4 * length items + 127) div 128) 128, MemcpyAsync,
                StreamSynchronize])
   \<and> calls (static_map_insert_if is_packable cuda_arch m items stencil pred hash key_equal)
       = (if items = [] then []
          else [MemsetAsync, KernelLaunch ((4 * length items + 127) div 128) 128, MemcpyAsync,
                StreamSynchronize])
   \<and> last (calls (static_multimap_insert cg_size kern_insert mm items)) = StreamSynchronize
   \<and> last (calls (static_multimap_insert_if cg_size kern_insert_if mm items stencil pred))
       = StreamSynchronize
   \<and> last (calls (static_multimap_contains cg_size kern_contains mm keys key_equal))
       = StreamSynchronize
   \<and> last (calls (static_multimap_count cg_size kern_count mm keys key_equal))
       = StreamSynchronize
   \<and> last (calls (static_multimap_count_outer cg_size kern_count mm keys key_equal))
       = StreamSynchronize
   \<and> last (calls (static_multimap_pair_count cg_size kern_pair_count mm items pair_equal))
       = StreamSynchronize
   \<and> last (calls (static_multimap_pair_count_outer cg_size kern_pair_count mm items pair_equal))
       = StreamSynchronize
   \<and> last (calls (static_multimap_retrieve grid_size kern_retrieve mm keys output_begin
                     key_equal)) = StreamSynchronize
   \<and> last (calls (static_multimap_retrieve_outer grid_size kern_retrieve mm keys output_begin
                     key_equal)) = StreamSynchronize
   \<and> last (calls (static_multimap_pair_retrieve cg_size kern_pair_retrieve mm items
                     probe_output_begin contained_output_begin pair_equal)) = StreamSynchronize
   \<and> last (calls (static_multimap_pair_retrieve_outer cg_size kern_pair_retrieve mm items
                     probe_output_begin contained_output_begin pair_equal)) = StreamSynchronize"
  by (simp add: static_map_find_def static_map_contains_def static_map_insert_def
      static_map_insert_if_def static_multimap_insert_def static_multimap_insert_if_def
      static_multimap_contains_def static_multimap_count_def static_multimap_count_outer_def
      static_multimap_pair_count_def static_multimap_pair_count_outer_def
      static_multimap_retrieve_def static_multimap_retrieve_outer_def
      static_multimap_pair_retrieve_def static_multimap_pair_retrieve_outer_def Let_def
      add.commute)

text \<open>
  C10.  \<open>pair_retrieve\<close> and \<open>pair_retrieve_outer\<close> return the two output iterators
  advanced by one and the same number, the final value of the match counter, so the two
  output sequences of one call have equal length.
\<close>

theorem pair_retrieve_ends_advance_equally:
  "(outcome (static_multimap_pair_retrieve cg_size kern m pairs probe_output_begin
               contained_output_begin pair_equal) = Some (m', probe_end, contained_end)
      \<longrightarrow> probe_end = probe_output_begin + d_counter m'
          \<and> contained_end = contained_output_begin + d_counter m'
          \<and> probe_end - probe_output_begin = contained_end - contained_output_begin)
   \<and> (outcome (static_multimap_pair_retrieve_outer cg_size kern m pairs probe_output_begin
                 contained_output_begin pair_equal) = Some (m'', probe_end', contained_end')
      \<longrightarrow> probe_end' = probe_output_begin + d_counter m''
          \<and> contained_end' = contained_output_begin + d_counter m''
          \<and> probe_end' - probe_output_begin = contained_end' - contained_output_begin)"
  by (auto simp add: static_multimap_pair_retrieve_def static_multimap_pair_retrieve_outer_def
      Let_def)

theorem pair_retrieve_ends_advance_equally_witness:
  "outcome (static_multimap_pair_retrieve 4
              (\<lambda>is_outer pairs probe_out contained_out counter view pair_equal. Some (counter + 3))
              (static_multimap_construct 4 1 8 (- 1 :: int) (- 1 :: int)) [(1, 10), (2, 20)]
              100 200 (=))
     = Some (static_multimap_construct 4 1 8 (- 1) (- 1) \<lparr>d_counter := 3\<rparr>, 103, 203)
   \<and> outcome (static_multimap_pair_retrieve_outer 4
              (\<lambda>is_outer pairs probe_out contained_out counter view pair_equal. Some (counter + 3))
              (static_multimap_construct 4 1 8 (- 1 :: int) (- 1 :: int)) [(1, 10), (2, 20)]
              100 200 (=))
     = Some (static_multimap_construct 4 1 8 (- 1) (- 1) \<lparr>d_counter := 3\<rparr>, 103, 203)
   \<and> (103 :: nat) - 100 = 203 - 200"
proof -
  let ?k = "\<lambda>(is_outer :: bool) (pairs :: (int \<times> int) list) (probe_out :: nat)
              (contained_out :: nat) (counter :: nat) (view :: (int, int) device_view)
              (pair_equal :: int \<times> int \<Rightarrow> int \<times> int \<Rightarrow> bool). Some (counter + 3)"
  let ?m = "static_multimap_construct 4 1 8 (- 1 :: int) (- 1 :: int)"
  have a: "outcome (static_multimap_pair_retrieve 4 ?k ?m [(1, 10), (2, 20)] 100 200 (=))
             = Some (?m\<lparr>d_counter := 3\<rparr>, 103, 203)"
    by (simp add: static_multimap_pair_retrieve_def Let_def launched_def)
  have b: "outcome (static_multimap_pair_retrieve_outer 4 ?k ?m [(1, 10), (2, 20)] 100 200 (=))
             = Some (?m\<lparr>d_counter := 3\<rparr>, 103, 203)"
    by (simp add: static_multimap_pair_retrieve_outer_def Let_def launched_def)
  from pair_retrieve_ends_advance_equally
         [of 4 ?k ?m "[(1, 10), (2, 20)]" 100 200 "(=)" "?m\<lparr>d_counter := 3\<rparr>" 103 203
             "?m\<lparr>d_counter := 3\<rparr>" 103 203]
       a b
  show ?thesis by simp
qed

section \<open>The outer match count law\<close>

lemma count_kernel_shift:
  "count_kernel ps is_outer keys (a + b) view key_equal
     = map_option (\<lambda>c. a + c) (count_kernel ps is_outer keys b view key_equal)"
proof (induction keys arbitrary: b)
  case Nil
  then show ?case by simp
next
  case (Cons k keys)
  show ?case
  proof (cases "device_view_count ps is_outer view k key_equal")
    case None
    then show ?thesis by simp
  next
    case (Some c)
    have "count_kernel ps is_outer keys (a + b + c) view key_equal
            = map_option (\<lambda>x. a + x) (count_kernel ps is_outer keys (b + c) view key_equal)"
      using Cons.IH [of "b + c"] by (simp add: add.assoc)
    then show ?thesis using Some by simp
  qed
qed

lemma device_view_count_outer:
  "device_view_count ps True v k key_equal
     = map_option (\<lambda>c. if c = 0 then 1 else c) (device_view_count ps False v k key_equal)"
  by (simp add: device_view_count_def option.map_comp comp_def)

lemma count_kernel_single:
  "count_kernel ps False [q] 0 view key_equal = device_view_count ps False view q key_equal"
  by (cases "device_view_count ps False view q key_equal") simp_all

lemma count_kernel_outer:
  "count_kernel ps True keys b view key_equal
     = map_option (\<lambda>c. c + unmatched ps view key_equal keys)
         (count_kernel ps False keys b view key_equal)"
proof (induction keys arbitrary: b)
  case Nil
  then show ?case by (simp add: unmatched_def)
next
  case (Cons k keys)
  show ?case
  proof (cases "device_view_count ps False view k key_equal")
    case None
    then show ?thesis by (simp add: device_view_count_outer)
  next
    case (Some c)
    show ?thesis
    proof (cases "c = 0")
      case True
      have "count_kernel ps False keys (1 + b) view key_equal
             = map_option (\<lambda>x. 1 + x) (count_kernel ps False keys b view key_equal)"
        by (rule count_kernel_shift)
      then show ?thesis using Some True Cons.IH [of "b + 1"]
        by (simp add: device_view_count_outer unmatched_def count_kernel_single
            option.map_comp comp_def add.commute)
    next
      case False
      then show ?thesis using Some Cons.IH [of "b + c"]
        by (simp add: device_view_count_outer unmatched_def count_kernel_single)
    qed
  qed
qed

lemma count_outcome:
  assumes "0 < cg"
  shows "map_option snd (outcome (static_multimap_count cg (count_kernel ps) m keys key_equal))
           = count_kernel ps False keys 0 (get_device_view m) key_equal"
proof (cases keys)
  case Nil
  then show ?thesis
    by (simp add: static_multimap_count_def Let_def launched_def)
next
  case (Cons k ks)
  then have "(cg * length keys + 1 * 128 - 1) div (1 * 128) \<noteq> 0"
    using assms grid_positive [of cg "length keys"] by simp
  then show ?thesis
    by (simp add: static_multimap_count_def Let_def launched_def option.map_comp comp_def
        option.map_ident)
qed

lemma count_outer_outcome:
  assumes "0 < cg"
  shows "map_option snd
           (outcome (static_multimap_count_outer cg (count_kernel ps) m keys key_equal))
           = count_kernel ps True keys 0 (get_device_view m) key_equal"
proof (cases keys)
  case Nil
  then show ?thesis
    by (simp add: static_multimap_count_outer_def Let_def launched_def)
next
  case (Cons k ks)
  then have "(cg * length keys + 1 * 128 - 1) div (1 * 128) \<noteq> 0"
    using assms grid_positive [of cg "length keys"] by simp
  then show ?thesis
    by (simp add: static_multimap_count_outer_def Let_def launched_def option.map_comp
        comp_def option.map_ident)
qed

text \<open>
  C8.  For every query list \<open>Q\<close> and every state of the multimap, \<open>count_outer Q\<close> is
  \<open>count Q\<close> plus the number of query items whose own match count is zero; one of the
  two calls returns exactly when the other does.  The group size of a probe sequence is
  at least one.
\<close>

theorem outer_match_count_law:
  assumes "0 < cg_size_of ps"
  shows "map_option snd
           (outcome (static_multimap_count_outer (cg_size_of ps) (count_kernel ps) m Q key_equal))
         = map_option
             (\<lambda>c. c + length (filter
                (\<lambda>q. map_option snd
                        (outcome (static_multimap_count (cg_size_of ps) (count_kernel ps) m [q]
                                    key_equal)) = Some 0) Q))
             (map_option snd
                (outcome (static_multimap_count (cg_size_of ps) (count_kernel ps) m Q key_equal)))"
  using assms
  by (simp add: count_outcome count_outer_outcome count_kernel_outer unmatched_def)

theorem outer_match_count_law_witness:
  "0 < cg_size_of
         \<lparr>cg_size_of = 2,
          initial_slot_of = (\<lambda>cap thread_rank k. (2 * nat k + thread_rank) mod cap),
          next_slot_of = (\<lambda>cap (k :: int) s. (s + 2) mod cap)\<rparr>
   \<and> map_option snd
       (outcome (static_multimap_count 2
          (count_kernel
             \<lparr>cg_size_of = 2,
              initial_slot_of = (\<lambda>cap thread_rank k. (2 * nat k + thread_rank) mod cap),
              next_slot_of = (\<lambda>cap k s. (s + 2) mod cap)\<rparr>)
          \<lparr>slots = [(2, 20), (- 1, - 1), (1, 10), (1, 11)], capacity = 4,
           empty_key_sentinel = - 1, empty_value_sentinel = - 1 :: int, d_counter = 0\<rparr>
          [1, 3, 2, 5] (=)))
     = Some 3
   \<and> map_option snd
       (outcome (static_multimap_count_outer 2
          (count_kernel
             \<lparr>cg_size_of = 2,
              initial_slot_of = (\<lambda>cap thread_rank k. (2 * nat k + thread_rank) mod cap),
              next_slot_of = (\<lambda>cap k s. (s + 2) mod cap)\<rparr>)
          \<lparr>slots = [(2, 20), (- 1, - 1), (1, 10), (1, 11)], capacity = 4,
           empty_key_sentinel = - 1, empty_value_sentinel = - 1 :: int, d_counter = 0\<rparr>
          [1, 3, 2, 5] (=)))
     = Some 5"
proof -
  let ?ps = "\<lparr>cg_size_of = 2,
              initial_slot_of = (\<lambda>cap thread_rank k. (2 * nat k + thread_rank) mod cap),
              next_slot_of = (\<lambda>cap (k :: int) s. (s + 2) mod cap)\<rparr>"
  let ?m = "\<lparr>slots = [(2, 20), (- 1, - 1), (1, 10), (1, 11)], capacity = 4,
            empty_key_sentinel = - 1 :: int, empty_value_sentinel = - 1 :: int, d_counter = 0\<rparr>"
  have h: "0 < cg_size_of ?ps" by simp
  have c: "map_option snd
             (outcome (static_multimap_count (cg_size_of ?ps) (count_kernel ?ps) ?m [1, 3, 2, 5] (=)))
           = Some 3"
    by code_simp
  have c1: "map_option snd
             (outcome (static_multimap_count (cg_size_of ?ps) (count_kernel ?ps) ?m [1] (=)))
           = Some 2"
    by code_simp
  have c2: "map_option snd
             (outcome (static_multimap_count (cg_size_of ?ps) (count_kernel ?ps) ?m [2] (=)))
           = Some 1"
    by code_simp
  have c3: "map_option snd
             (outcome (static_multimap_count (cg_size_of ?ps) (count_kernel ?ps) ?m [3] (=)))
           = Some 0"
    by code_simp
  have c5: "map_option snd
             (outcome (static_multimap_count (cg_size_of ?ps) (count_kernel ?ps) ?m [5] (=)))
           = Some 0"
    by code_simp
  have f: "length (filter
              (\<lambda>q. map_option snd
                     (outcome (static_multimap_count (cg_size_of ?ps) (count_kernel ?ps) ?m [q] (=)))
                   = Some 0) [1, 3, 2, 5]) = 2"
    by (simp only: filter.simps c1 c2 c3 c5) simp
  have o: "map_option snd
             (outcome (static_multimap_count_outer (cg_size_of ?ps) (count_kernel ?ps) ?m
                         [1, 3, 2, 5] (=)))
           = Some 5"
    unfolding outer_match_count_law [OF h, of ?m "[1, 3, 2, 5]" "(=)"] c f by simp
  show ?thesis using h c o by simp
qed

section \<open>Size accounting of the map\<close>

lemma insert_kernel_counts_reports:
  "insert_kernel pk arch ts items c view hash key_equal = Some (c', view')
     \<Longrightarrow> \<exists>reports. insert_reports pk arch ts items view hash key_equal = Some reports
           \<and> c' = c + length (filter (\<lambda>r. r) reports)"
proof (induction items arbitrary: c view)
  case Nil
  then show ?case by simp
next
  case (Cons p items)
  from Cons.prems obtain inserted w where
    step: "device_mutable_view_insert_cg pk arch ts view p hash key_equal = Some (inserted, w)"
    and rest: "insert_kernel pk arch ts items (if inserted then c + 1 else c) w hash key_equal
                 = Some (c', view')"
    by (auto split: option.splits)
  from Cons.IH [OF rest] obtain reports where
    r: "insert_reports pk arch ts items w hash key_equal = Some reports"
    and c: "c' = (if inserted then c + 1 else c) + length (filter (\<lambda>r. r) reports)"
    by blast
  show ?case using step r c by simp
qed

lemma insert_if_n_kernel_counts_reports:
  "insert_if_n_kernel pk arch ts items i c view stencil pred hash key_equal = Some (c', view')
     \<Longrightarrow> \<exists>reports. insert_if_n_reports pk arch ts items i view stencil pred hash key_equal
                      = Some reports
           \<and> c' = c + length (filter (\<lambda>r. r) reports)"
proof (induction items arbitrary: i c view)
  case Nil
  then show ?case by simp
next
  case (Cons p items)
  show ?case
  proof (cases "pred (stencil i)")
    case False
    then show ?thesis using Cons.prems Cons.IH [of "Suc i" c view] by simp
  next
    case True
    from Cons.prems True obtain inserted w where
      step: "device_mutable_view_insert_cg pk arch ts view p hash key_equal = Some (inserted, w)"
      and rest: "insert_if_n_kernel pk arch ts items (Suc i) (if inserted then c + 1 else c) w
                   stencil pred hash key_equal = Some (c', view')"
      by (auto split: option.splits)
    from Cons.IH [OF rest] obtain reports where
      r: "insert_if_n_reports pk arch ts items (Suc i) w stencil pred hash key_equal = Some reports"
      and c: "c' = (if inserted then c + 1 else c) + length (filter (\<lambda>r. r) reports)"
      by blast
    show ?thesis using True step r c by simp
  qed
qed

lemma static_map_insert_size:
  assumes "outcome (static_map_insert pk arch m items hash key_equal) = Some (m', u)"
  shows "\<exists>reports. insert_reports pk arch 4 items (get_device_mutable_view m) hash key_equal
                      = Some reports
           \<and> map_size m' = map_size m + length (filter (\<lambda>r. r) reports)"
proof (cases items)
  case Nil
  then show ?thesis using assms by (simp add: static_map_insert_def)
next
  case (Cons p ps)
  with assms obtain h w where
    k: "insert_kernel pk arch 4 items 0 (get_device_mutable_view m) hash key_equal = Some (h, w)"
    and m': "m' = m\<lparr>slots := slots w, map_size := map_size m + h, num_successes := h\<rparr>"
    by (auto simp add: static_map_insert_def Let_def split: option.splits)
  from insert_kernel_counts_reports [OF k] m' show ?thesis by auto
qed

lemma static_map_insert_if_size:
  assumes "outcome (static_map_insert_if pk arch m items stencil pred hash key_equal)
             = Some (m', u)"
  shows "\<exists>reports. insert_if_n_reports pk arch 4 items 0 (get_device_mutable_view m) stencil pred
                      hash key_equal = Some reports
           \<and> map_size m' = map_size m + length (filter (\<lambda>r. r) reports)"
proof (cases items)
  case Nil
  then show ?thesis using assms by (simp add: static_map_insert_if_def)
next
  case (Cons p ps)
  with assms obtain h w where
    k: "insert_if_n_kernel pk arch 4 items 0 0 (get_device_mutable_view m) stencil pred
          hash key_equal = Some (h, w)"
    and m': "m' = m\<lparr>slots := slots w, map_size := map_size m + h, num_successes := h\<rparr>"
    by (auto simp add: static_map_insert_if_def Let_def split: option.splits)
  from insert_if_n_kernel_counts_reports [OF k] m' show ?thesis by auto
qed

lemma call_size:
  assumes "call_outcome pk arch hash key_equal m c = Some m'"
    and "call_reports pk arch hash key_equal m c = Some reports"
  shows "map_size m' = map_size m + length (filter (\<lambda>r. r) reports)"
proof (cases c)
  case (Insert items)
  with assms(1) obtain u where
    "outcome (static_map_insert pk arch m items hash key_equal) = Some (m', u)"
    by (auto simp add: call_outcome_def)
  from static_map_insert_size [OF this] assms(2) Insert show ?thesis
    by (auto simp add: call_reports_def)
next
  case (InsertIf items stencil pred)
  with assms(1) obtain u where
    "outcome (static_map_insert_if pk arch m items stencil pred hash key_equal) = Some (m', u)"
    by (auto simp add: call_outcome_def)
  from static_map_insert_if_size [OF this] assms(2) InsertIf show ?thesis
    by (auto simp add: call_reports_def)
qed

lemma run_calls_size:
  "run_calls pk arch hash key_equal m cs = Some (m_final, successes)
     \<Longrightarrow> map_size m_final = map_size m + sum_list successes \<and> length successes = length cs"
proof (induction cs arbitrary: m successes)
  case Nil
  then show ?case by simp
next
  case (Cons c cs)
  from Cons.prems obtain m' reports rest where
    o: "call_outcome pk arch hash key_equal m c = Some m'"
    and r: "call_reports pk arch hash key_equal m c = Some reports"
    and t: "run_calls pk arch hash key_equal m' cs = Some (m_final, rest)"
    and s: "successes = length (filter (\<lambda>r. r) reports) # rest"
    by (auto split: option.splits)
  from Cons.IH [OF t] call_size [OF o r] s show ?case by simp
qed

text \<open>
  C4.  A bulk \<open>insert\<close> or \<open>insert_if\<close> that returns has added to \<open>size_\<close> exactly the
  number of its per-item insertions that reported \<open>SUCCESS\<close>; hence after any history of
  bulk inserts on a freshly constructed map \<open>size_\<close> is the sum of the \<open>SUCCESS\<close> counts
  of the calls made so far.
\<close>

theorem size_accounting:
  "(outcome (static_map_insert is_packable cuda_arch m items hash key_equal) = Some (m', u)
      \<longrightarrow> (\<exists>reports. insert_reports is_packable cuda_arch 4 items (get_device_mutable_view m)
                        hash key_equal = Some reports
             \<and> map_size m' = map_size m + length (filter (\<lambda>r. r) reports)))
   \<and> (outcome (static_map_insert_if is_packable cuda_arch m items stencil pred hash key_equal)
         = Some (m'', u')
      \<longrightarrow> (\<exists>reports. insert_if_n_reports is_packable cuda_arch 4 items 0
                        (get_device_mutable_view m) stencil pred hash key_equal = Some reports
             \<and> map_size m'' = map_size m + length (filter (\<lambda>r. r) reports)))
   \<and> (run_calls is_packable cuda_arch hash key_equal
         (static_map_construct cap empty_key empty_value) cs = Some (m_final, successes)
      \<longrightarrow> map_size m_final = sum_list successes \<and> length successes = length cs)"
proof (intro conjI impI)
  assume "outcome (static_map_insert is_packable cuda_arch m items hash key_equal) = Some (m', u)"
  then show "\<exists>reports. insert_reports is_packable cuda_arch 4 items (get_device_mutable_view m)
                        hash key_equal = Some reports
             \<and> map_size m' = map_size m + length (filter (\<lambda>r. r) reports)"
    by (rule static_map_insert_size)
next
  assume "outcome (static_map_insert_if is_packable cuda_arch m items stencil pred hash key_equal)
         = Some (m'', u')"
  then show "\<exists>reports. insert_if_n_reports is_packable cuda_arch 4 items 0
                        (get_device_mutable_view m) stencil pred hash key_equal = Some reports
             \<and> map_size m'' = map_size m + length (filter (\<lambda>r. r) reports)"
    by (rule static_map_insert_if_size)
next
  assume r: "run_calls is_packable cuda_arch hash key_equal
         (static_map_construct cap empty_key empty_value) cs = Some (m_final, successes)"
  from run_calls_size [OF r] show "map_size m_final = sum_list successes"
    by (simp add: static_map_construct_def)
  from run_calls_size [OF r] show "length successes = length cs" by simp
qed

theorem size_accounting_witness:
  "outcome (static_map_insert True 700 (static_map_construct 8 (- 1 :: int) (- 1 :: int))
              [(1, 10), (2, 20), (1, 30), (9, 90)] nat (=))
     = Some (\<lparr>slots = [(- 1, - 1), (1, 10), (2, 20), (9, 90), (- 1, - 1), (- 1, - 1),
                       (- 1, - 1), (- 1, - 1)],
              capacity = 8, empty_key_sentinel = - 1, empty_value_sentinel = - 1,
              map_size = 3, num_successes = 3\<rparr>, ())
   \<and> insert_reports True 700 4 [(1, 10), (2, 20), (1, 30), (9, 90)]
       (get_device_mutable_view (static_map_construct 8 (- 1 :: int) (- 1 :: int))) nat (=)
     = Some [True, True, False, True]
   \<and> outcome (static_map_insert_if True 700 (static_map_construct 8 (- 1 :: int) (- 1 :: int))
              [(1, 10), (2, 20), (1, 30), (9, 90)] (\<lambda>i. i) (\<lambda>s. s \<noteq> 1) nat (=))
     = Some (\<lparr>slots = [(- 1, - 1), (1, 10), (9, 90), (- 1, - 1), (- 1, - 1), (- 1, - 1),
                       (- 1, - 1), (- 1, - 1)],
              capacity = 8, empty_key_sentinel = - 1, empty_value_sentinel = - 1,
              map_size = 2, num_successes = 2\<rparr>, ())
   \<and> insert_if_n_reports True 700 4 [(1, 10), (2, 20), (1, 30), (9, 90)] 0
       (get_device_mutable_view (static_map_construct 8 (- 1 :: int) (- 1 :: int)))
       (\<lambda>i. i) (\<lambda>s. s \<noteq> 1) nat (=)
     = Some [True, False, True]
   \<and> run_calls True 700 nat (=) (static_map_construct 8 (- 1 :: int) (- 1 :: int))
       [Insert [(1, 10), (2, 20), (1, 30), (9, 90)],
        InsertIf [(1, 10), (3, 20), (1, 30), (9, 90)] (\<lambda>i. i) (\<lambda>s. s \<noteq> (1 :: nat))]
     = Some (\<lparr>slots = [(- 1, - 1), (1, 10), (2, 20), (9, 90), (- 1, - 1), (- 1, - 1),
                       (- 1, - 1), (- 1, - 1)],
              capacity = 8, empty_key_sentinel = - 1, empty_value_sentinel = - 1,
              map_size = 3, num_successes = 0\<rparr>, [3, 0])
   \<and> (3 :: nat) = 0 + length (filter (\<lambda>r. r) [True, True, False, True])
   \<and> (2 :: nat) = 0 + length (filter (\<lambda>r. r) [True, False, True])
   \<and> (3 :: nat) = sum_list [3, 0]"
proof -
  let ?m = "static_map_construct 8 (- 1 :: int) (- 1 :: int)"
  let ?items = "[(1, 10), (2, 20), (1, 30), (9, 90)] :: (int \<times> int) list"
  let ?m1 = "\<lparr>slots = [(- 1, - 1), (1, 10), (2, 20), (9, 90), (- 1, - 1), (- 1, - 1),
                       (- 1, - 1), (- 1 :: int, - 1 :: int)],
              capacity = 8, empty_key_sentinel = - 1, empty_value_sentinel = - 1,
              map_size = 3, num_successes = 3\<rparr>"
  let ?m2 = "\<lparr>slots = [(- 1, - 1), (1, 10), (9, 90), (- 1, - 1), (- 1, - 1), (- 1, - 1),
                       (- 1, - 1), (- 1 :: int, - 1 :: int)],
              capacity = 8, empty_key_sentinel = - 1, empty_value_sentinel = - 1,
              map_size = 2, num_successes = 2\<rparr>"
  let ?m3 = "\<lparr>slots = [(- 1, - 1), (1, 10), (2, 20), (9, 90), (- 1, - 1), (- 1, - 1),
                       (- 1, - 1), (- 1 :: int, - 1 :: int)],
              capacity = 8, empty_key_sentinel = - 1, empty_value_sentinel = - 1,
              map_size = 3, num_successes = 0\<rparr>"
  let ?cs = "[Insert ?items,
              InsertIf [(1, 10), (3, 20), (1, 30), (9, 90)] (\<lambda>i. i) (\<lambda>s. s \<noteq> (1 :: nat))]"
  have a: "outcome (static_map_insert True 700 ?m ?items nat (=)) = Some (?m1, ())"
    by code_simp
  have b: "insert_reports True 700 4 ?items (get_device_mutable_view ?m) nat (=)
             = Some [True, True, False, True]"
    by code_simp
  have c: "outcome (static_map_insert_if True 700 ?m ?items (\<lambda>i. i) (\<lambda>s. s \<noteq> 1) nat (=))
             = Some (?m2, ())"
    by code_simp
  have d: "insert_if_n_reports True 700 4 ?items 0 (get_device_mutable_view ?m)
             (\<lambda>i. i) (\<lambda>s. s \<noteq> 1) nat (=) = Some [True, False, True]"
    by code_simp
  have e: "run_calls True 700 nat (=) ?m ?cs = Some (?m3, [3, 0])"
    by code_simp
  from size_accounting
         [of True 700 ?m ?items nat "(=)" ?m1 "()" "\<lambda>i. i" "\<lambda>s. s \<noteq> 1" ?m2 "()" 8 "- 1" "- 1"
             ?cs ?m3 "[3, 0]"]
       a b c d e
  show ?thesis by simp
qed

section \<open>The state table of the back-to-back protocol\<close>

lemma value_cas_loop_succeeds:
  assumes "snd (slot_seen others s n) = ev"
    and "\<forall>i<n. snd (slot_seen others s i) \<noteq> ev"
  shows "value_cas_loop ev d others s = Some (fst (slot_seen others s n), d)"
  using assms
proof (induction n arbitrary: others s)
  case 0
  then show ?case
    by (subst value_cas_loop.simps) (simp add: compare_exchange_strong_def Let_def)
next
  case (Suc n)
  have first: "snd (after_others others s) \<noteq> ev"
    using Suc.prems(2) [rule_format, of 0] by simp
  have later: "\<forall>i<n. snd (slot_seen (tl others) (after_others others s) i) \<noteq> ev"
    using Suc.prems(2) by (metis Suc_less_eq slot_seen.simps(2))
  have "value_cas_loop ev d others s
          = value_cas_loop ev d (tl others) (after_others others s)"
    using first by (subst value_cas_loop.simps) (simp add: compare_exchange_strong_def Let_def)
  also have "\<dots> = Some (fst (slot_seen (tl others) (after_others others s) n), d)"
    using Suc.prems(1) later by (intro Suc.IH) simp_all
  finally show ?case by simp
qed

lemma value_cas_loop_returns:
  "value_cas_loop ev d others s = Some r \<Longrightarrow> \<exists>n. snd (slot_seen others s n) = ev"
proof (induct ev d others s r rule: value_cas_loop.raw_induct [rotated 1, consumes 1, case_names step])
  case (step loop ev d others s r)
  show ?case
  proof (cases "snd (after_others others s) = ev")
    case True
    then have "snd (slot_seen others s 0) = ev" by simp
    then show ?thesis by blast
  next
    case False
    with step(2) have "loop ev d (tl others) (after_others others s) = Some r"
      by (simp add: compare_exchange_strong_def Let_def)
    from step(1) [OF this] obtain n where "snd (slot_seen (tl others) (after_others others s) n) = ev"
      by blast
    then have "snd (slot_seen others s (Suc n)) = ev" by simp
    then show ?thesis by blast
  qed
qed

lemma value_cas_loop_spins:
  assumes "\<forall>n. snd (slot_seen others s n) \<noteq> ev"
  shows "value_cas_loop ev d others s = None"
proof (cases "value_cas_loop ev d others s")
  case None
  then show ?thesis .
next
  case (Some r)
  from value_cas_loop_returns [OF this] assms show ?thesis by blast
qed

lemma slot_seen_alone: "slot_seen [] s n = s"
  by (induction n) (simp_all add: after_others_def)

text \<open>
  C3.  The rows of the state table that the claim names.  When the key CAS succeeds and
  the value CAS fails, the worker retries the value CAS against \<open>empty_value\<close>: it
  returns \<open>SUCCESS\<close> at the first retry that meets \<open>empty_value\<close> in the value cell,
  leaving its own value there, and it never returns when no retry does.  When the key
  CAS fails and the value CAS succeeds, the worker stores \<open>empty_value\<close> back into the
  value cell and returns \<open>DUPLICATE\<close> when the key it observed equals the insert key
  under the user's equality, and \<open>CONTINUE\<close> otherwise.
\<close>

theorem back_to_back_cas_state_table:
  fixes v :: "('k, 'v) device_view"
    and current_slot :: "('k, 'v) slot"
    and insert_pair :: "'k \<times> 'v"
    and others :: "(('k, 'v) slot \<Rightarrow> ('k, 'v) slot) list"
  defines "key_claimed \<equiv> after_others others (fst insert_pair, snd current_slot)"
    and "key_lost \<equiv> after_others others current_slot"
  shows
    "(fst current_slot = empty_key_sentinel v
        \<and> snd key_claimed \<noteq> empty_value_sentinel v
        \<and> (\<forall>i<n. snd (slot_seen (tl others) key_claimed i) \<noteq> empty_value_sentinel v)
        \<and> snd (slot_seen (tl others) key_claimed n) = empty_value_sentinel v
      \<longrightarrow> back_to_back_cas v others current_slot insert_pair key_equal
            = Some (SUCCESS, (fst (slot_seen (tl others) key_claimed n), snd insert_pair)))
     \<and> (fst current_slot = empty_key_sentinel v
        \<and> snd key_claimed \<noteq> empty_value_sentinel v
        \<and> (\<forall>i. snd (slot_seen (tl others) key_claimed i) \<noteq> empty_value_sentinel v)
      \<longrightarrow> back_to_back_cas v others current_slot insert_pair key_equal = None)
     \<and> (fst current_slot \<noteq> empty_key_sentinel v
        \<and> snd key_lost = empty_value_sentinel v
      \<longrightarrow> back_to_back_cas v others current_slot insert_pair key_equal
            = Some (if key_equal (fst insert_pair) (fst current_slot) then DUPLICATE
                    else CONTINUE,
                    (fst (after_others (tl others) (fst key_lost, snd insert_pair)),
                     empty_value_sentinel v)))"
proof (intro conjI impI)
  assume a: "fst current_slot = empty_key_sentinel v
        \<and> snd key_claimed \<noteq> empty_value_sentinel v
        \<and> (\<forall>i<n. snd (slot_seen (tl others) key_claimed i) \<noteq> empty_value_sentinel v)
        \<and> snd (slot_seen (tl others) key_claimed n) = empty_value_sentinel v"
  then have loop: "value_cas_loop (empty_value_sentinel v) (snd insert_pair) (tl others) key_claimed
                     = Some (fst (slot_seen (tl others) key_claimed n), snd insert_pair)"
    by (intro value_cas_loop_succeeds) simp_all
  from a have "back_to_back_cas v others current_slot insert_pair key_equal
                 = map_option (Pair SUCCESS)
                     (value_cas_loop (empty_value_sentinel v) (snd insert_pair) (tl others)
                        key_claimed)"
    by (simp add: back_to_back_cas_def compare_exchange_strong_def Let_def key_claimed_def)
  with loop show "back_to_back_cas v others current_slot insert_pair key_equal
            = Some (SUCCESS, (fst (slot_seen (tl others) key_claimed n), snd insert_pair))"
    by simp
next
  assume a: "fst current_slot = empty_key_sentinel v
        \<and> snd key_claimed \<noteq> empty_value_sentinel v
        \<and> (\<forall>i. snd (slot_seen (tl others) key_claimed i) \<noteq> empty_value_sentinel v)"
  then have loop: "value_cas_loop (empty_value_sentinel v) (snd insert_pair) (tl others) key_claimed
                     = None"
    by (intro value_cas_loop_spins) simp
  from a have "back_to_back_cas v others current_slot insert_pair key_equal
                 = map_option (Pair SUCCESS)
                     (value_cas_loop (empty_value_sentinel v) (snd insert_pair) (tl others)
                        key_claimed)"
    by (simp add: back_to_back_cas_def compare_exchange_strong_def Let_def key_claimed_def)
  with loop show "back_to_back_cas v others current_slot insert_pair key_equal = None"
    by simp
next
  assume "fst current_slot \<noteq> empty_key_sentinel v \<and> snd key_lost = empty_value_sentinel v"
  then show "back_to_back_cas v others current_slot insert_pair key_equal
            = Some (if key_equal (fst insert_pair) (fst current_slot) then DUPLICATE
                    else CONTINUE,
                    (fst (after_others (tl others) (fst key_lost, snd insert_pair)),
                     empty_value_sentinel v))"
    by (simp add: back_to_back_cas_def compare_exchange_strong_def Let_def key_lost_def)
qed

theorem back_to_back_cas_state_table_witness:
  "back_to_back_cas (get_device_view (static_map_construct 4 (- 1 :: int) (- 1 :: int)))
     [\<lambda>s. (fst s, 7), \<lambda>s. s, \<lambda>s. (fst s, - 1)] (- 1, - 1) (5, 50) (=)
     = Some (SUCCESS, (5, 50))
   \<and> back_to_back_cas (get_device_view (static_map_construct 4 (- 1 :: int) (- 1 :: int)))
     [\<lambda>s. (fst s, 7)] (- 1, - 1) (5, 50) (=)
     = None
   \<and> back_to_back_cas (get_device_view (static_map_construct 4 (- 1 :: int) (- 1 :: int)))
     [] (9, - 1) (5, 50) (=)
     = Some (CONTINUE, (9, - 1))
   \<and> back_to_back_cas (get_device_view (static_map_construct 4 (- 1 :: int) (- 1 :: int)))
     [] (5, - 1) (5, 50) (=)
     = Some (DUPLICATE, (5, - 1))"
proof -
  let ?v = "get_device_view (static_map_construct 4 (- 1 :: int) (- 1 :: int))"
  let ?others = "[\<lambda>s. (fst s, 7), \<lambda>s. s, \<lambda>s. (fst s, - 1)] :: ((int, int) slot \<Rightarrow> (int, int) slot) list"
  have sentinels: "empty_key_sentinel ?v = - 1" "empty_value_sentinel ?v = - 1"
    by (simp_all add: get_device_view_def static_map_construct_def)
  have one: "(1 :: nat) = Suc 0" by simp
  have r1: "back_to_back_cas ?v ?others (- 1, - 1) (5, 50) (=) = Some (SUCCESS, (5, 50))"
    using back_to_back_cas_state_table [where current_slot = "(- 1, - 1)" and v = ?v and others = ?others
           and insert_pair = "(5, 50)" and n = "Suc 0" and key_equal = "(=)"]
    by (simp add: sentinels after_others_def)
  have r2: "back_to_back_cas ?v [\<lambda>s. (fst s, 7)] (- 1, - 1) (5, 50) (=) = None"
    using back_to_back_cas_state_table [where current_slot = "(- 1, - 1)" and v = ?v and others = "[\<lambda>s. (fst s, 7)]"
           and insert_pair = "(5, 50)" and n = 0 and key_equal = "(=)"]
    by (simp add: sentinels after_others_def slot_seen_alone)
  have r3: "back_to_back_cas ?v [] (9, - 1) (5, 50) (=) = Some (CONTINUE, (9, - 1))"
    using back_to_back_cas_state_table [where current_slot = "(9, - 1)" and v = ?v and others = "[]"
           and insert_pair = "(5, 50)" and n = 0 and key_equal = "(=)"]
    by (simp add: sentinels after_others_def)
  have r4: "back_to_back_cas ?v [] (5, - 1) (5, 50) (=) = Some (DUPLICATE, (5, - 1))"
    using back_to_back_cas_state_table [where current_slot = "(5, - 1)" and v = ?v and others = "[]"
           and insert_pair = "(5, 50)" and n = 0 and key_equal = "(=)"]
    by (simp add: sentinels after_others_def)
  from r1 r2 r3 r4 show ?thesis by blast
qed

section \<open>Sentinel comparison in the multimap's size scan\<close>

lemma get_size_bitwise_keys:
  "static_multimap_get_size (\<noteq>) m
     = length (filter (\<lambda>k. \<not> bitwise_compare k (empty_key_sentinel m))
                 (take (capacity m) (map fst (slots m))))"
  by (simp add: static_multimap_get_size_def slot_is_filled_def [abs_def] bitwise_compare_def)

text \<open>
  C5 (the code departs from the claim).  \<open>get_size\<close> decides emptiness with the key
  type's \<open>operator!=\<close>, not bitwise.  For \<open>float\<close> keys with a NaN as the empty-key
  sentinel, a multimap whose four slots all hold the sentinel bit for bit, as they do
  after construction, is reported to hold four keys; with the sentinel \<open>-0.0\<close> a slot
  holding the key \<open>+0.0\<close> is not counted.
\<close>

theorem get_size_compares_with_operator_ne:
  "static_multimap_get_size float_ne
     \<lparr>slots = [(0x7FC00000, 0), (0x7FC00000, 0), (0x7FC00000, 0), (0x7FC00000, 0)],
      capacity = 4, empty_key_sentinel = 0x7FC00000 :: 32 word,
      empty_value_sentinel = 0 :: 32 word, d_counter = 0\<rparr> = 4
   \<and> length (filter (\<lambda>k. \<not> bitwise_compare k (0x7FC00000 :: 32 word))
        (map fst [(0x7FC00000, 0 :: 32 word), (0x7FC00000, 0), (0x7FC00000, 0), (0x7FC00000, 0)]))
     = 0
   \<and> static_multimap_get_size float_ne
       \<lparr>slots = [(0x00000000, 5), (0x80000000, 0)], capacity = 2,
        empty_key_sentinel = 0x80000000 :: 32 word, empty_value_sentinel = 0 :: 32 word,
        d_counter = 0\<rparr> = 0
   \<and> length (filter (\<lambda>k. \<not> bitwise_compare k (0x80000000 :: 32 word))
        (map fst [(0x00000000, 5 :: 32 word), (0x80000000, 0)]))
     = 1"
  by (simp add: static_multimap_get_size_def slot_is_filled_def float_ne_def float_is_nan_def
      bitwise_compare_def Let_def)

section \<open>Probing by a single worker\<close>

lemma wf_view_pos: "wf_view v \<Longrightarrow> 0 < capacity v"
  by (simp add: wf_view_def)



lemma probe_pos_reaches:
  assumes "wf_view v" "j < capacity v"
  shows "\<exists>t. probe_pos v hash k t = j"
proof -
  let ?c = "capacity v"
  let ?t = "j + (?c - hash k mod ?c)"
  have c: "0 < ?c" using assms(1) by (simp add: wf_view_def)
  have "hash k mod ?c < ?c" using c by simp
  then have "hash k mod ?c + ?t = j + ?c" by simp
  then have "(hash k mod ?c + ?t) mod ?c = j" using assms(2) by simp
  then have "(hash k + ?t) mod ?c = j" by (simp add: mod_add_left_eq)
  then show ?thesis unfolding probe_pos_def by blast
qed

lemma first_stop:
  assumes "\<exists>t. P (probe_pos v hash k t)"
  shows "\<exists>t. P (probe_pos v hash k t) \<and> (\<forall>s<t. \<not> P (probe_pos v hash k s))"
proof -
  from assms obtain t where "P (probe_pos v hash k t)" by blast
  then show ?thesis
    using exists_least_iff [of "\<lambda>t. P (probe_pos v hash k t)"] by blast
qed











section \<open>Probing by a cooperative group\<close>


lemma window_length: "length (window v hash k g m) = g"
  by (simp add: window_def)

lemma window_nth: "r < g \<Longrightarrow> window v hash k g m ! r = probe_pos v hash k (m * g + r)"
  by (simp add: window_def)

lemma in_set_window:
  "x \<in> set (window v hash k g m) \<longleftrightarrow> (\<exists>r<g. x = probe_pos v hash k (m * g + r))"
  by (auto simp add: window_def)

lemma window_initial:
  "map (\<lambda>thread_rank. initial_slot_cg v thread_rank k hash) [0..<g] = window v hash k g 0"
  by (simp add: window_def initial_slot_cg_def probe_pos_def)

lemma next_slot_cg_pos:
  "next_slot_cg v g (probe_pos v hash k (m * g + r)) = probe_pos v hash k (Suc m * g + r)"
proof -
  have "((hash k + (m * g + r)) mod capacity v + g) mod capacity v
          = (hash k + (m * g + r) + g) mod capacity v"
    by (simp add: mod_add_left_eq)
  also have "hash k + (m * g + r) + g = hash k + (Suc m * g + r)" by simp
  finally show ?thesis by (simp add: next_slot_cg_def probe_pos_def)
qed

lemma window_next:
  "map (next_slot_cg v g) (window v hash k g m) = window v hash k g (Suc m)"
  unfolding window_def by (simp add: next_slot_cg_pos del: mult_Suc)

lemma window_member:
  "r < g \<Longrightarrow> probe_pos v hash k (m * g + r) \<in> set (window v hash k g m)"
  unfolding in_set_window by blast






section \<open>Claiming a slot keeps the invariants\<close>









section \<open>An insertion that returns has met a slot to stop at\<close>





section \<open>Occupied slots\<close>




section \<open>The invariants along a sequence of insertions\<close>















section \<open>What a sequence of insertions with distinct keys stores\<close>



section \<open>Lookups by a single worker\<close>










section \<open>Lookups by a cooperative group\<close>

lemma ffs_set:
  "\<exists>b\<in>set bs. b \<Longrightarrow> 0 < ffs bs \<and> ffs bs \<le> length bs \<and> bs ! (ffs bs - 1)"
proof (induction bs)
  case Nil
  then show ?case by simp
next
  case (Cons b bs)
  show ?case
  proof (cases b)
    case True
    then show ?thesis by simp
  next
    case False
    with Cons.prems have "\<exists>b\<in>set bs. b" by simp
    from Cons.IH [OF this] False show ?thesis by (cases "ffs bs") auto
  qed
qed

lemma find_cg_probe_advance:
  assumes "\<forall>r<g. fst (slots v ! probe_pos v hash k (m * g + r)) \<noteq> empty_key_sentinel v
              \<and> \<not> key_equal (fst (slots v ! probe_pos v hash k (m * g + r))) k"
  shows "find_cg_probe key_equal k v (window v hash k g m)
           = find_cg_probe key_equal k v (window v hash k g (Suc m))"
    and "contains_cg_probe key_equal k v (window v hash k g m)
           = contains_cg_probe key_equal k v (window v hash k g (Suc m))"
proof -
  have nm: "\<not> list_ex id (map (\<lambda>e. \<not> bitwise_compare e (empty_key_sentinel v) \<and> key_equal e k)
                     (map (\<lambda>s. fst (slots v ! s)) (window v hash k g m)))"
    using assms by (auto simp add: list_ex_iff in_set_window)
  have nm': "\<not> list_ex (\<lambda>e. \<not> bitwise_compare e (empty_key_sentinel v) \<and> key_equal e k)
                     (map (\<lambda>s. fst (slots v ! s)) (window v hash k g m))"
    using assms by (auto simp add: list_ex_iff in_set_window)
  have ne: "\<not> list_ex id
                     (map (\<lambda>e. bitwise_compare e (empty_key_sentinel v))
                        (map (\<lambda>s. fst (slots v ! s)) (window v hash k g m)))"
    using assms by (auto simp add: list_ex_iff in_set_window bitwise_compare_def)
  show "find_cg_probe key_equal k v (window v hash k g m)
           = find_cg_probe key_equal k v (window v hash k g (Suc m))"
    by (subst find_cg_probe.simps)
       (simp only: Let_def nm ne if_False window_length window_next)
  show "contains_cg_probe key_equal k v (window v hash k g m)
           = contains_cg_probe key_equal k v (window v hash k g (Suc m))"
    by (subst contains_cg_probe.simps)
       (simp only: Let_def nm' ne if_False window_length window_next)
qed

lemma find_cg_probe_skip:
  assumes "\<forall>s<m * g. fst (slots v ! probe_pos v hash k s) \<noteq> empty_key_sentinel v
              \<and> \<not> key_equal (fst (slots v ! probe_pos v hash k s)) k"
  shows "find_cg_probe key_equal k v (window v hash k g 0)
           = find_cg_probe key_equal k v (window v hash k g m)
         \<and> contains_cg_probe key_equal k v (window v hash k g 0)
           = contains_cg_probe key_equal k v (window v hash k g m)"
  using assms
proof (induction m)
  case 0
  then show ?case by simp
next
  case (Suc m)
  have step: "\<forall>r<g. fst (slots v ! probe_pos v hash k (m * g + r)) \<noteq> empty_key_sentinel v
              \<and> \<not> key_equal (fst (slots v ! probe_pos v hash k (m * g + r))) k"
  proof (intro allI impI)
    fix r assume "r < g"
    then have "m * g + r < Suc m * g" by simp
    with Suc.prems show "fst (slots v ! probe_pos v hash k (m * g + r)) \<noteq> empty_key_sentinel v
              \<and> \<not> key_equal (fst (slots v ! probe_pos v hash k (m * g + r))) k"
      by blast
  qed
  have "find_cg_probe key_equal k v (window v hash k g 0)
          = find_cg_probe key_equal k v (window v hash k g m)
        \<and> contains_cg_probe key_equal k v (window v hash k g 0)
          = contains_cg_probe key_equal k v (window v hash k g m)"
    using Suc by simp
  then show ?case
    using find_cg_probe_advance
            [where key_equal = key_equal and k = k and v = v and hash = hash and g = g and m = m,
             OF step]
    by simp
qed

lemma find_cg_probe_at_empty:
  assumes no_match: "\<forall>r<g. fst (slots v ! probe_pos v hash k (m * g + r)) = empty_key_sentinel v
              \<or> \<not> key_equal (fst (slots v ! probe_pos v hash k (m * g + r))) k"
    and lane: "r < g"
    and empty: "fst (slots v ! probe_pos v hash k (m * g + r)) = empty_key_sentinel v"
  shows "find_cg_probe key_equal k v (window v hash k g m) = Some (view_end v)"
    and "contains_cg_probe key_equal k v (window v hash k g m) = Some False"
proof -
  have nm: "\<not> list_ex id (map (\<lambda>e. \<not> bitwise_compare e (empty_key_sentinel v) \<and> key_equal e k)
                     (map (\<lambda>s. fst (slots v ! s)) (window v hash k g m)))"
    using no_match by (auto simp add: list_ex_iff in_set_window bitwise_compare_def)
  have nm': "\<not> list_ex (\<lambda>e. \<not> bitwise_compare e (empty_key_sentinel v) \<and> key_equal e k)
                     (map (\<lambda>s. fst (slots v ! s)) (window v hash k g m))"
    using no_match by (auto simp add: list_ex_iff in_set_window bitwise_compare_def)
  have some: "list_ex id (map (\<lambda>e. bitwise_compare e (empty_key_sentinel v))
                            (map (\<lambda>s. fst (slots v ! s)) (window v hash k g m)))"
    using empty window_member [OF lane, of v hash k m]
    by (auto simp add: list_ex_iff bitwise_compare_def)
  show "find_cg_probe key_equal k v (window v hash k g m) = Some (view_end v)"
    by (subst find_cg_probe.simps) (simp only: Let_def nm some if_False if_True)
  show "contains_cg_probe key_equal k v (window v hash k g m) = Some False"
    by (subst contains_cg_probe.simps) (simp only: Let_def nm' some if_False if_True)
qed

lemma find_cg_probe_at_match:
  assumes lane: "r < g"
    and occ: "fst (slots v ! probe_pos v hash k (m * g + r)) \<noteq> empty_key_sentinel v"
    and eq: "key_equal (fst (slots v ! probe_pos v hash k (m * g + r))) k"
  shows "\<exists>r'<g. find_cg_probe key_equal k v (window v hash k g m)
                   = Some (probe_pos v hash k (m * g + r'))
               \<and> fst (slots v ! probe_pos v hash k (m * g + r')) \<noteq> empty_key_sentinel v
               \<and> key_equal (fst (slots v ! probe_pos v hash k (m * g + r'))) k"
    and "contains_cg_probe key_equal k v (window v hash k g m) = Some True"
proof -
  let ?exists = "map (\<lambda>e. \<not> bitwise_compare e (empty_key_sentinel v) \<and> key_equal e k)
                     (map (\<lambda>s. fst (slots v ! s)) (window v hash k g m))"
  have some: "list_ex id ?exists"
    using occ eq window_member [OF lane, of v hash k m]
    by (auto simp add: list_ex_iff bitwise_compare_def)
  have some': "list_ex (\<lambda>e. \<not> bitwise_compare e (empty_key_sentinel v) \<and> key_equal e k)
                     (map (\<lambda>s. fst (slots v ! s)) (window v hash k g m))"
    using occ eq window_member [OF lane, of v hash k m]
    by (auto simp add: list_ex_iff bitwise_compare_def)
  define r' where "r' = ffs ?exists - 1"
  have "\<exists>b\<in>set ?exists. b" using some unfolding list_ex_iff by simp
  from ffs_set [OF this]
  have f: "0 < ffs ?exists" "ffs ?exists \<le> length ?exists" "?exists ! (ffs ?exists - 1)"
    by blast+
  have len: "length ?exists = g" by (simp add: window_length)
  have r': "r' < g" unfolding r'_def using f(1,2) len by linarith
  have hit: "?exists ! r'" unfolding r'_def by (rule f(3))
  have found: "find_cg_probe key_equal k v (window v hash k g m)
                 = Some (window v hash k g m ! r')"
    by (subst find_cg_probe.simps) (simp only: Let_def some if_True r'_def)
  from hit r' have "fst (slots v ! probe_pos v hash k (m * g + r')) \<noteq> empty_key_sentinel v
               \<and> key_equal (fst (slots v ! probe_pos v hash k (m * g + r'))) k"
    by (simp add: window_length window_nth bitwise_compare_def)
  with found r' show "\<exists>r'<g. find_cg_probe key_equal k v (window v hash k g m)
                   = Some (probe_pos v hash k (m * g + r'))
               \<and> fst (slots v ! probe_pos v hash k (m * g + r')) \<noteq> empty_key_sentinel v
               \<and> key_equal (fst (slots v ! probe_pos v hash k (m * g + r'))) k"
    by (auto simp add: window_nth)
  show "contains_cg_probe key_equal k v (window v hash k g m) = Some True"
    by (subst contains_cg_probe.simps) (simp only: Let_def some' if_True)
qed



section \<open>Round trip of insert with find and contains\<close>




section \<open>Bulk find and contains\<close>

lemma find_cg_probe_result:
  assumes "find_cg_probe key_equal k v cs = Some r"
  shows "wf_view v \<longrightarrow> (\<forall>c\<in>set cs. c < capacity v)
           \<longrightarrow> r = view_end v
               \<or> (r < capacity v \<and> fst (slots v ! r) \<noteq> empty_key_sentinel v
                   \<and> key_equal (fst (slots v ! r)) k)"
  using assms
proof (induct key_equal k v cs r
         rule: find_cg_probe.raw_induct [rotated 1, consumes 1, case_names step])
  case (step probe key_equal k v cs r)
  let ?keys = "map (\<lambda>s. fst (slots v ! s)) cs"
  let ?exists = "map (\<lambda>e. \<not> bitwise_compare e (empty_key_sentinel v) \<and> key_equal e k) ?keys"
  let ?empty = "map (\<lambda>e. bitwise_compare e (empty_key_sentinel v)) ?keys"
  show ?case
  proof (intro impI)
    assume wf: "wf_view v" and cs: "\<forall>c\<in>set cs. c < capacity v"
    show "r = view_end v
            \<or> (r < capacity v \<and> fst (slots v ! r) \<noteq> empty_key_sentinel v
                \<and> key_equal (fst (slots v ! r)) k)"
    proof (cases "list_ex id ?exists")
      case True
      with step(2) have r: "r = cs ! (ffs ?exists - 1)" by (simp only: Let_def if_True) simp
      have "\<exists>b\<in>set ?exists. b" using True unfolding list_ex_iff by simp
      from ffs_set [OF this]
      have f: "0 < ffs ?exists" "ffs ?exists \<le> length ?exists" "?exists ! (ffs ?exists - 1)"
        by blast+
      have len: "length ?exists = length cs" by simp
      have lt: "ffs ?exists - 1 < length cs" using f(1,2) len by linarith
      from f(3) lt have "fst (slots v ! r) \<noteq> empty_key_sentinel v
                           \<and> key_equal (fst (slots v ! r)) k"
        unfolding r by (simp add: bitwise_compare_def)
      moreover have "r < capacity v" unfolding r using cs lt by simp
      ultimately show ?thesis by blast
    next
      case False
      show ?thesis
      proof (cases "list_ex id ?empty")
        case True
        with step(2) False have "r = view_end v" by (simp only: Let_def if_True if_False) simp
        then show ?thesis by blast
      next
        case ne: False
        with step(2) False
        have "probe key_equal k v (map (next_slot_cg v (length cs)) cs) = Some r"
          by (simp only: Let_def if_False)
        moreover have "\<forall>c\<in>set (map (next_slot_cg v (length cs)) cs). c < capacity v"
          using wf by (simp add: next_slot_cg_def wf_view_def)
        ultimately show ?thesis using step(1) wf by blast
      qed
    qed
  qed
qed

lemma group_find_result:
  assumes wf: "wf_view v" and r: "device_view_find_cg g v k hash key_equal = Some r"
  shows "r = view_end v
           \<or> (r < capacity v \<and> fst (slots v ! r) \<noteq> empty_key_sentinel v
               \<and> key_equal (fst (slots v ! r)) k)"
proof -
  have "\<forall>c\<in>set (map (\<lambda>thread_rank. initial_slot_cg v thread_rank k hash) [0..<g]).
          c < capacity v"
    using wf by (simp add: initial_slot_cg_def wf_view_def)
  with find_cg_probe_result [OF r [unfolded device_view_find_cg_def]] wf show ?thesis by blast
qed

lemma group_lookup_returns:
  assumes wf: "wf_view v" and g: "0 < g"
    and room: "\<exists>j<capacity v. fst (slots v ! j) = empty_key_sentinel v"
  shows "\<exists>r. device_view_find_cg g v k hash key_equal = Some r"
    and "\<exists>b. device_view_contains_cg g v k hash key_equal = Some b"
proof -
  let ?P = "\<lambda>j. fst (slots v ! j) = empty_key_sentinel v \<or> key_equal (fst (slots v ! j)) k"
  let ?pos = "probe_pos v hash k"
  from room obtain j where j: "j < capacity v" "?P j" by blast
  from probe_pos_reaches [OF wf j(1)] obtain t' where "?pos t' = j" by blast
  with j(2) have "\<exists>t. ?P (?pos t)" by blast
  from first_stop [of ?P, OF this] obtain t where
    t: "?P (?pos t)" and before: "\<forall>s<t. \<not> ?P (?pos s)"
    by blast
  define m where "m = t div g"
  define r where "r = t mod g"
  have tm: "t = m * g + r" and rg: "r < g" using g by (simp_all add: m_def r_def)
  have pre: "\<forall>s<m * g. fst (slots v ! ?pos s) \<noteq> empty_key_sentinel v
                         \<and> \<not> key_equal (fst (slots v ! ?pos s)) k"
    using before tm by simp
  note skip = find_cg_probe_skip
                [where key_equal = key_equal and k = k and v = v and hash = hash and g = g
                   and m = m, OF pre]
  have both: "(\<exists>r. find_cg_probe key_equal k v (window v hash k g m) = Some r)
                \<and> (\<exists>b. contains_cg_probe key_equal k v (window v hash k g m) = Some b)"
  proof (cases "\<exists>r'<g. fst (slots v ! ?pos (m * g + r')) \<noteq> empty_key_sentinel v
                   \<and> key_equal (fst (slots v ! ?pos (m * g + r'))) k")
    case True
    then obtain r' where r': "r' < g"
      "fst (slots v ! ?pos (m * g + r')) \<noteq> empty_key_sentinel v"
      "key_equal (fst (slots v ! ?pos (m * g + r'))) k"
      by blast
    note hit = find_cg_probe_at_match
                 [where key_equal = key_equal and k = k and v = v and hash = hash and g = g
                    and m = m and r = r', OF r']
    from hit show ?thesis by blast
  next
    case False
    then have nm: "\<forall>r'<g. fst (slots v ! ?pos (m * g + r')) = empty_key_sentinel v
                      \<or> \<not> key_equal (fst (slots v ! ?pos (m * g + r'))) k"
      by blast
    with t rg tm have e: "fst (slots v ! ?pos (m * g + r)) = empty_key_sentinel v" by blast
    note miss = find_cg_probe_at_empty
                  [where key_equal = key_equal and k = k and v = v and hash = hash and g = g
                     and m = m and r = r, OF nm rg e]
    from miss show ?thesis by blast
  qed
  from both skip show "\<exists>r. device_view_find_cg g v k hash key_equal = Some r"
    by (simp add: device_view_find_cg_def window_initial)
  from both skip show "\<exists>b. device_view_contains_cg g v k hash key_equal = Some b"
    by (simp add: device_view_contains_cg_def window_initial)
qed

lemma find_kernel_writes:
  assumes wf: "wf_view view"
    and out: "find_kernel g keys view hash key_equal = Some found"
  shows "length found = length keys
           \<and> (\<forall>i<length keys. found ! i = empty_value_sentinel view
                 \<or> (\<exists>j<capacity view. fst (slots view ! j) \<noteq> empty_key_sentinel view
                        \<and> key_equal (fst (slots view ! j)) (keys ! i)
                        \<and> found ! i = snd (slots view ! j)))"
  using out
proof (induction keys arbitrary: found)
  case Nil
  then show ?case by simp
next
  case (Cons k keys)
  from Cons.prems obtain r rest where
    r: "device_view_find_cg g view k hash key_equal = Some r"
    and rest: "find_kernel g keys view hash key_equal = Some rest"
    and found: "found = (if r = view_end view then empty_value_sentinel view
                         else snd (slots view ! r)) # rest"
    by (auto split: option.splits)
  from group_find_result [OF wf r]
  have head: "hd found = empty_value_sentinel view
                \<or> (\<exists>j<capacity view. fst (slots view ! j) \<noteq> empty_key_sentinel view
                        \<and> key_equal (fst (slots view ! j)) k
                        \<and> hd found = snd (slots view ! j))"
    unfolding found by auto
  from Cons.IH [OF rest] have tail: "length rest = length keys"
    "\<forall>i<length keys. rest ! i = empty_value_sentinel view
                 \<or> (\<exists>j<capacity view. fst (slots view ! j) \<noteq> empty_key_sentinel view
                        \<and> key_equal (fst (slots view ! j)) (keys ! i)
                        \<and> rest ! i = snd (slots view ! j))"
    by blast+
  show ?case
  proof (intro conjI allI impI)
    show "length found = length (k # keys)" using tail(1) found by simp
  next
    fix i assume "i < length (k # keys)"
    show "found ! i = empty_value_sentinel view
                 \<or> (\<exists>j<capacity view. fst (slots view ! j) \<noteq> empty_key_sentinel view
                        \<and> key_equal (fst (slots view ! j)) ((k # keys) ! i)
                        \<and> found ! i = snd (slots view ! j))"
    proof (cases i)
      case 0
      then show ?thesis using head found by simp
    next
      case (Suc i')
      with \<open>i < length (k # keys)\<close> have "i' < length keys" by simp
      with tail(2) Suc found show ?thesis by simp
    qed
  qed
qed

lemma contains_kernel_writes:
  "contains_kernel g keys view hash key_equal = Some present \<Longrightarrow> length present = length keys"
proof (induction keys arbitrary: present)
  case Nil
  then show ?case by simp
next
  case (Cons k keys)
  then show ?case by (auto split: option.splits)
qed

lemma kernels_return:
  assumes wf: "wf_view view" and g: "0 < g"
    and room: "\<exists>j<capacity view. fst (slots view ! j) = empty_key_sentinel view"
  shows "find_kernel g keys view hash key_equal \<noteq> None"
    and "contains_kernel g keys view hash key_equal \<noteq> None"
proof -
  show "find_kernel g keys view hash key_equal \<noteq> None"
  proof (induction keys)
    case Nil
    then show ?case by simp
  next
    case (Cons k keys)
    from group_lookup_returns(1) [OF wf g room, of k hash key_equal] Cons show ?case
      by (auto split: option.splits)
  qed
  show "contains_kernel g keys view hash key_equal \<noteq> None"
  proof (induction keys)
    case Nil
    then show ?case by simp
  next
    case (Cons k keys)
    from group_lookup_returns(2) [OF wf g room, of k hash key_equal] Cons show ?case
      by (auto split: option.splits)
  qed
qed

lemma view_of_map:
  "capacity (get_device_view m) = capacity m"
  "slots (get_device_view m) = slots m"
  "empty_key_sentinel (get_device_view m) = empty_key_sentinel m"
  "empty_value_sentinel (get_device_view m) = empty_value_sentinel m"
  by (simp_all add: get_device_view_def)

text \<open>
  C9.  On a map whose slot array has the length its capacity says, a bulk \<open>find\<close> or
  \<open>contains\<close> whose kernel terminates leaves the container as it was, slot for slot and
  in \<open>size_\<close>.  \<open>find\<close> writes one value per probed key, the value of a slot whose key
  equals the probed key or \<open>empty_value\<close>; \<open>contains\<close> writes one bool per probed key.
  The kernels terminate whenever the table has an empty slot.
\<close>

theorem find_contains_leave_map_unchanged:
  assumes "wf_view (get_device_view m)"
  shows
    "(outcome (static_map_find m keys hash key_equal) = Some (m', found)
        \<longrightarrow> m' = m \<and> length found = length keys
            \<and> (\<forall>i<length keys. found ! i = empty_value_sentinel m
                  \<or> (\<exists>j<capacity m. fst (slots m ! j) \<noteq> empty_key_sentinel m
                         \<and> key_equal (fst (slots m ! j)) (keys ! i)
                         \<and> found ! i = snd (slots m ! j))))
     \<and> (outcome (static_map_contains m keys hash key_equal) = Some (m'', present)
        \<longrightarrow> m'' = m \<and> length present = length keys)
     \<and> ((\<exists>j<capacity m. fst (slots m ! j) = empty_key_sentinel m)
        \<longrightarrow> outcome (static_map_find m keys hash key_equal) \<noteq> None
            \<and> outcome (static_map_contains m keys hash key_equal) \<noteq> None)"
proof (intro conjI impI)
  assume o: "outcome (static_map_find m keys hash key_equal) = Some (m', found)"
  show "m' = m"
    using o by (cases keys) (auto simp add: static_map_find_def Let_def)
  have k: "find_kernel 4 keys (get_device_view m) hash key_equal = Some found"
    using o by (cases keys) (auto simp add: static_map_find_def Let_def)
  from find_kernel_writes [OF assms k]
  show "length found = length keys"
    and "\<forall>i<length keys. found ! i = empty_value_sentinel m
                  \<or> (\<exists>j<capacity m. fst (slots m ! j) \<noteq> empty_key_sentinel m
                         \<and> key_equal (fst (slots m ! j)) (keys ! i)
                         \<and> found ! i = snd (slots m ! j))"
    by (simp_all add: view_of_map)
next
  assume o: "outcome (static_map_contains m keys hash key_equal) = Some (m'', present)"
  show "m'' = m"
    using o by (cases keys) (auto simp add: static_map_contains_def Let_def)
  have "contains_kernel 4 keys (get_device_view m) hash key_equal = Some present"
    using o by (cases keys) (auto simp add: static_map_contains_def Let_def)
  then show "length present = length keys" by (rule contains_kernel_writes)
next
  assume "\<exists>j<capacity m. fst (slots m ! j) = empty_key_sentinel m"
  then have room: "\<exists>j<capacity (get_device_view m).
                     fst (slots (get_device_view m) ! j) = empty_key_sentinel (get_device_view m)"
    by (simp add: view_of_map)
  have four: "0 < (4 :: nat)" by simp
  note ret = kernels_return [OF assms four room, of keys hash key_equal]
  show "outcome (static_map_find m keys hash key_equal) \<noteq> None"
    using ret(1) by (cases keys) (auto simp add: static_map_find_def Let_def)
  show "outcome (static_map_contains m keys hash key_equal) \<noteq> None"
    using ret(2) by (cases keys) (auto simp add: static_map_contains_def Let_def)
qed

theorem find_contains_leave_map_unchanged_witness:
  "wf_view (get_device_view
     \<lparr>slots = [(- 1, - 1), (1, 10), (9, 90), (2, 20), (- 1, - 1), (- 1, - 1), (- 1, - 1),
               (- 1 :: int, - 1 :: int)],
      capacity = 8, empty_key_sentinel = - 1, empty_value_sentinel = - 1,
      map_size = 3, num_successes = 3\<rparr>)
   \<and> outcome (static_map_find
       \<lparr>slots = [(- 1, - 1), (1, 10), (9, 90), (2, 20), (- 1, - 1), (- 1, - 1), (- 1, - 1),
                 (- 1 :: int, - 1 :: int)],
        capacity = 8, empty_key_sentinel = - 1, empty_value_sentinel = - 1,
        map_size = 3, num_successes = 3\<rparr> [9, 17, 2] nat (=))
     = Some (\<lparr>slots = [(- 1, - 1), (1, 10), (9, 90), (2, 20), (- 1, - 1), (- 1, - 1), (- 1, - 1),
                       (- 1, - 1)],
              capacity = 8, empty_key_sentinel = - 1, empty_value_sentinel = - 1,
              map_size = 3, num_successes = 3\<rparr>, [90, - 1, 20])
   \<and> outcome (static_map_contains
       \<lparr>slots = [(- 1, - 1), (1, 10), (9, 90), (2, 20), (- 1, - 1), (- 1, - 1), (- 1, - 1),
                 (- 1 :: int, - 1 :: int)],
        capacity = 8, empty_key_sentinel = - 1, empty_value_sentinel = - 1,
        map_size = 3, num_successes = 3\<rparr> [9, 17, 2] nat (=))
     = Some (\<lparr>slots = [(- 1, - 1), (1, 10), (9, 90), (2, 20), (- 1, - 1), (- 1, - 1), (- 1, - 1),
                       (- 1, - 1)],
              capacity = 8, empty_key_sentinel = - 1, empty_value_sentinel = - 1,
              map_size = 3, num_successes = 3\<rparr>, [True, False, True])
   \<and> length [90, - 1, 20 :: int] = length [9, 17, 2 :: int]"
proof -
  let ?m = "\<lparr>slots = [(- 1, - 1), (1, 10), (9, 90), (2, 20), (- 1, - 1), (- 1, - 1), (- 1, - 1),
                     (- 1 :: int, - 1 :: int)],
            capacity = 8, empty_key_sentinel = - 1, empty_value_sentinel = - 1,
            map_size = 3, num_successes = 3\<rparr>"
  have wf: "wf_view (get_device_view ?m)" by (simp add: wf_view_def get_device_view_def)
  have f: "outcome (static_map_find ?m [9, 17, 2] nat (=)) = Some (?m, [90, - 1, 20])"
    by code_simp
  have c: "outcome (static_map_contains ?m [9, 17, 2] nat (=)) = Some (?m, [True, False, True])"
    by code_simp
  from find_contains_leave_map_unchanged
         [where m = ?m and keys = "[9, 17, 2]" and hash = nat and key_equal = "(=)"
            and m' = ?m and found = "[90, - 1, 20]" and m'' = ?m
            and present = "[True, False, True]", OF wf]
       f c wf
  show ?thesis by simp
qed

end
